theory Spec2Isabelle
  imports Complex_Main "HOL-Library.Sublist"
begin

section \<open>Transfer statistics and throttled progress reporting\<close>

text \<open>
  The interfaces \<open>UploadStats\<close> (utils/s3Uploader.ts) and \<open>DownloadStats\<close>
  (Deploy Service, aws.ts) have the same six numeric fields; only the names of the two
  completion counters differ (\<open>filesUploaded\<close>/\<open>filesDownloaded\<close> and
  \<open>bytesUploaded\<close>/\<open>bytesDownloaded\<close>). One record stands for both. Times are
  the integer milliseconds of \<open>Date.now()\<close>, sizes are byte counts.
\<close>

record TransferStats =
  totalFiles :: int
  filesTransferred :: int
  totalBytes :: int
  bytesTransferred :: int
  startTime :: int
  lastLogTime :: int

text \<open>\<open>private logIntervalMs = 2000\<close> in both classes.\<close>

definition logIntervalMs :: int where
  "logIntervalMs = 2000"

text \<open>
  The object literal assigned to \<open>this.stats\<close> at the start of a sync call. Its two
  calls of \<open>Date.now()\<close> follow each other directly; one reading stands for both.
\<close>

definition resetStats :: "int \<Rightarrow> TransferStats" where
  "resetStats now =
     \<lparr>totalFiles = 0, filesTransferred = 0, totalBytes = 0, bytesTransferred = 0,
      startTime = now, lastLogTime = now\<rparr>"

text \<open>
  The arguments handed to \<open>Logger.upload.progress\<close>; the Deploy Service formats the same
  numbers into one line for \<open>Logger.info\<close>.
\<close>

record Progress =
  p_filesDone :: int
  p_totalFiles :: int
  p_bytesDone :: int
  p_totalBytes :: int
  p_elapsedSeconds :: real

text \<open>
  \<open>logProgress()\<close>: reads the clock, and only when at least \<open>logIntervalMs\<close> have
  passed since \<open>lastLogTime\<close> does it hand an observation to the logger and store the
  clock value in \<open>lastLogTime\<close>. The first component is what was emitted, if anything.
\<close>

definition logProgress :: "int \<Rightarrow> TransferStats \<Rightarrow> Progress option \<times> TransferStats" where
  "logProgress now st =
     (if now - lastLogTime st \<ge> logIntervalMs
      then (Some \<lparr>p_filesDone = filesTransferred st, p_totalFiles = totalFiles st,
                  p_bytesDone = bytesTransferred st, p_totalBytes = totalBytes st,
                  p_elapsedSeconds = real_of_int (now - startTime st) / 1000\<rparr>,
            st\<lparr>lastLogTime := now\<rparr>)
      else (None, st))"

text \<open>
  The tail of \<open>uploadFile\<close> / the \<open>finish\<close> handler of \<open>downloadFile\<close>: one file of
  \<open>fileSize\<close> bytes has completed; the counters are bumped and \<open>logProgress\<close> is called.
\<close>

definition fileCompleted :: "int \<Rightarrow> int \<Rightarrow> TransferStats \<Rightarrow> Progress option \<times> TransferStats" where
  "fileCompleted now fileSize st =
     logProgress now
       (st\<lparr>filesTransferred := filesTransferred st + 1,
           bytesTransferred := bytesTransferred st + fileSize\<rparr>)"

text \<open>
  A sequence of completion events, each with the clock value that \<open>logProgress\<close> reads and
  the size of the file. The result lists the emitted observations, each with the clock value
  at which it was emitted, in order.
\<close>

fun completions :: "(int \<times> int) list \<Rightarrow> TransferStats \<Rightarrow> (int \<times> Progress) list \<times> TransferStats" where
  "completions [] st = ([], st)"
| "completions ((now, fileSize) # evs) st =
     (case fileCompleted now fileSize st of
        (None, st') \<Rightarrow> completions evs st'
      | (Some p, st') \<Rightarrow>
          (case completions evs st' of (ps, st'') \<Rightarrow> ((now, p) # ps, st'')))"

section \<open>Failures\<close>

text \<open>
  Values that the code throws or rejects with. The first four are the \<open>Error\<close> objects the
  Deploy Service constructs itself (the argument is the job identifier that appears in the
  message); \<open>Underlying\<close> is an error raised by a collaborator (object storage, queue
  broker, version-control client), carrying its message.
\<close>

datatype failure =
    ProjectDirectoryNotFound string
  | BuildDidNotGenerateDist string
  | BuildFailed string "int option"
  | DistDirectoryNotFound string
  | Underlying string

section \<open>Pipeline orchestrator (Deploy Service)\<close>

text \<open>
  What \<open>buildProject\<close> observes of its surroundings: whether \<open>output/<id>\<close> exists, the
  code passed to the \<open>close\<close> handler of the build subprocess (\<open>null\<close> when it was
  killed by a signal), whether \<open>output/<id>/dist\<close> exists afterwards, and how the upload
  started by \<open>uploadDistFolder\<close> ends (\<open>None\<close>: the promise resolves).
\<close>

record BuildEnv =
  projectDirExists :: bool
  exitCode :: "int option"
  distExists :: bool
  uploadOutcome :: "failure option"

text \<open>The Redis hash \<open>status\<close>: \<open>hSet("status", id, label)\<close> and \<open>hGet("status", id)\<close>.\<close>

type_synonym statusStore = "string \<rightharpoonup> string"

text \<open>
  \<open>uploadDistFolder(id, deploymentId)\<close> as far as its outcome goes: it rejects when the
  dist directory is missing, otherwise with whatever the directory upload rejects with.
\<close>

definition uploadDistFolder_outcome :: "string \<Rightarrow> BuildEnv \<Rightarrow> failure + unit" where
  "uploadDistFolder_outcome ident env =
     (if \<not> distExists env then Inl (DistDirectoryNotFound ident)
      else case uploadOutcome env of Some e \<Rightarrow> Inl e | None \<Rightarrow> Inr ())"

text \<open>
  \<open>buildProject(id)\<close>. The promise rejects at once when the project directory is missing.
  Otherwise the build command runs and the \<open>close\<close> handler decides: on code 0 it first
  issues \<open>publisher.hSet("status", id, "Deployed")\<close>, then checks for the dist folder, then
  awaits \<open>uploadDistFolder\<close>; on any other code it rejects.
\<close>

definition buildProject :: "string \<Rightarrow> BuildEnv \<Rightarrow> statusStore \<Rightarrow> (failure + unit) \<times> statusStore" where
  "buildProject ident env st =
     (if \<not> projectDirExists env then (Inl (ProjectDirectoryNotFound ident), st)
      else if exitCode env = Some 0 then
        (let st' = st(ident \<mapsto> ''Deployed'') in
         if \<not> distExists env then (Inl (BuildDidNotGenerateDist ident), st')
         else (case uploadDistFolder_outcome ident env of
                 Inl e \<Rightarrow> (Inl e, st')
               | Inr _ \<Rightarrow> (Inr (), st')))
      else (Inl (BuildFailed ident (exitCode env)), st))"

text \<open>
  How an awaited call of the job sequence ends, as the loop sees it. Its promise resolves;
  or its promise rejects, and the \<open>await\<close> throws the reason; or an error comes up that
  no handler receives (an \<open>error\<close> event of a stream that has no listener for it, the
  rejection of a promise that nothing awaits or catches). Node throws such an error as an
  uncaught exception, and the service installs no handler for these, so the process ends.
\<close>

datatype ending =
    Resolves
  | RejectsWith failure
  | ProcessEnds failure

text \<open>
  What one pass through the body of \<open>while (1)\<close> in \<open>main\<close> meets: the outcome of
  \<open>brPop\<close> (it rejects, or resolves with \<open>null\<close> or with an element), how
  \<open>await downloadS3Folder(res.element)\<close> ends, the surroundings of the build, and how the
  promise of \<open>publisher.hSet("status", id, "Deployed")\<close> settles when the call is made
  (\<open>None\<close>: it resolves).
\<close>

record IterationInput =
  popOutcome :: "failure + string option"
  downloadOutcome :: ending
  buildEnv :: BuildEnv
  hSetOutcome :: "failure option"

datatype event =
    BrPop
  | Received string
  | ProcessingComplete string
  | CaughtError failure
  | Sleep int

text \<open>
  The state of the service: the status hash, the log lines and waits of \<open>main\<close> so far,
  and, once the process has ended, the error that ended it.
\<close>

record LoopState =
  status :: statusStore
  trace :: "event list"
  ended :: "failure option"

definition emit :: "event list \<Rightarrow> LoopState \<Rightarrow> LoopState" where
  "emit evs s = s\<lparr>trace := trace s @ evs\<rparr>"

text \<open>
  \<open>buildProject\<close> calls \<open>publisher.hSet\<close> when the project directory exists and the
  build exits with code 0. The call is not awaited and nothing is attached to its promise:
  when the promise rejects, no handler receives the rejection.
\<close>

definition hSetIssued :: "BuildEnv \<Rightarrow> bool" where
  "hSetIssued env = (projectDirExists env \<and> exitCode env = Some 0)"

text \<open>
  The \<open>try\<close> block of the loop body. \<open>res && res.element\<close> is false for \<open>null\<close> and for
  an empty element; then nothing is done. The block throws what an awaited promise rejects
  with. An error that no handler receives, during the download or from the \<open>hSet\<close> of the
  build, does not reach the block: the process ends, and the status hash is as it was.
\<close>

definition tryBlock :: "IterationInput \<Rightarrow> LoopState \<Rightarrow> ending \<times> LoopState" where
  "tryBlock inp s =
     (let s1 = emit [BrPop] s in
      case popOutcome inp of
        Inl e \<Rightarrow> (RejectsWith e, s1)
      | Inr None \<Rightarrow> (Resolves, s1)
      | Inr (Some el) \<Rightarrow>
          if el = [] then (Resolves, s1)
          else
            (let s2 = emit [Received el] s1 in
             case downloadOutcome inp of
               ProcessEnds e \<Rightarrow> (ProcessEnds e, s2)
             | RejectsWith e \<Rightarrow> (RejectsWith e, s2)
             | Resolves \<Rightarrow>
                 (case (if hSetIssued (buildEnv inp) then hSetOutcome inp else None) of
                    Some e \<Rightarrow> (ProcessEnds e, s2)
                  | None \<Rightarrow>
                      (case buildProject el (buildEnv inp) (status s2) of
                         (Inl e, st') \<Rightarrow> (RejectsWith e, s2\<lparr>status := st'\<rparr>)
                       | (Inr _, st') \<Rightarrow>
                           (Resolves, emit [ProcessingComplete el] (s2\<lparr>status := st'\<rparr>))))))"

text \<open>
  One pass through the loop body: the \<open>try\<close> block, and on an error thrown in it the
  \<open>catch\<close> block, which logs the error and awaits a 5000 ms timer; then control is back
  at the head of \<open>while (1)\<close>. When the process ends during the pass, neither happens.
\<close>

definition iteration :: "IterationInput \<Rightarrow> LoopState \<Rightarrow> LoopState" where
  "iteration inp s =
     (case tryBlock inp s of
        (RejectsWith e, s') \<Rightarrow> emit [CaughtError e, Sleep 5000] s'
      | (Resolves, s') \<Rightarrow> s'
      | (ProcessEnds e, s') \<Rightarrow> s'\<lparr>ended := Some e\<rparr>)"

text \<open>
  \<open>main\<close>: the loop has no exit of its own, so a run is described by its finite prefixes.
  The list gives what each pass meets; the result is the state when control reaches the head
  of the loop for the next \<open>brPop\<close>, or the state in which the process ended, after which
  no pass is made.
\<close>

fun main_loop :: "IterationInput list \<Rightarrow> LoopState \<Rightarrow> LoopState" where
  "main_loop [] s = s"
| "main_loop (inp # inps) s =
     (case ended s of
        None \<Rightarrow> main_loop inps (iteration inp s)
      | Some e \<Rightarrow> s)"

section \<open>Paths\<close>

text \<open>
  Node's \<open>path.posix.join\<close> and \<open>path.posix.normalize\<close> (the services run on a POSIX
  platform, where \<open>path.join\<close> is \<open>path.posix.join\<close>). The library scans the
  characters and keeps the result as a string; here the path is cut at the slashes and the
  result is kept as the list of its segments: an empty segment and \<open>.\<close> are dropped,
  \<open>..\<close> removes the last segment kept unless there is none or it is \<open>..\<close> itself.
\<close>

fun split_slash :: "string \<Rightarrow> string list" where
  "split_slash [] = [[]]"
| "split_slash (c # cs) =
     (if c = CHR ''/'' then [] # split_slash cs
      else (case split_slash cs of [] \<Rightarrow> [[c]] | s # ss \<Rightarrow> (c # s) # ss))"

fun join_slash :: "string list \<Rightarrow> string" where
  "join_slash [] = []"
| "join_slash [s] = s"
| "join_slash (s # t # ss) = s @ ''/'' @ join_slash (t # ss)"

definition normalizeSegment :: "bool \<Rightarrow> string list \<Rightarrow> string \<Rightarrow> string list" where
  "normalizeSegment allowAboveRoot res seg =
     (if seg = [] \<or> seg = ''.'' then res
      else if seg = ''..'' then
        (if res \<noteq> [] \<and> last res \<noteq> ''..'' then butlast res
         else if allowAboveRoot then res @ [''..''] else res)
      else res @ [seg])"

definition normalizeString :: "string \<Rightarrow> bool \<Rightarrow> string" where
  "normalizeString path allowAboveRoot =
     join_slash (foldl (normalizeSegment allowAboveRoot) [] (split_slash path))"

definition posix_normalize :: "string \<Rightarrow> string" where
  "posix_normalize path =
     (if path = [] then ''.''
      else
        (let isAbsolute = (hd path = CHR ''/'');
             trailingSeparator = (last path = CHR ''/'');
             p = normalizeString path (\<not> isAbsolute)
         in if p = [] then (if isAbsolute then ''/'' else if trailingSeparator then ''./'' else ''.'')
            else (if isAbsolute then ''/'' else []) @ p @ (if trailingSeparator then ''/'' else [])))"

definition posix_join :: "string list \<Rightarrow> string" where
  "posix_join args =
     (let parts = filter (\<lambda>a. a \<noteq> []) args
      in if parts = [] then ''.'' else posix_normalize (join_slash parts))"

section \<open>Local directory trees\<close>

text \<open>
  What \<open>readdir(dir, {withFileTypes: true})\<close> and reading a file give: a directory is the
  list of its entries in the order \<open>readdir\<close> returns them; an entry that is not a
  directory has a name and its bytes. The size that \<open>stat\<close> reports is the number of bytes.
\<close>

datatype entry = File string string | Directory string "entry list"

text \<open>\<open>const concurrencyLimit = 5\<close>, in the uploader and in the downloader.\<close>

definition concurrencyLimit :: nat where
  "concurrencyLimit = 5"

section \<open>Upload direction (Upload Service, utils/s3Uploader.ts)\<close>

text \<open>
  The body of the loop in \<open>calculateDirectoryStats\<close>: a directory entry is counted by the
  recursive call on it, any other entry adds one file and its size.
\<close>

fun countEntry :: "entry \<Rightarrow> TransferStats \<Rightarrow> TransferStats" where
  "countEntry (File name content) st =
     st\<lparr>totalFiles := totalFiles st + 1, totalBytes := totalBytes st + int (length content)\<rparr>"
| "countEntry (Directory name entries) st = fold countEntry entries st"

definition calculateDirectoryStats :: "entry list \<Rightarrow> TransferStats \<Rightarrow> TransferStats" where
  "calculateDirectoryStats entries st = fold countEntry entries st"

text \<open>
  The statistics pass at the head of \<open>uploadDirectory\<close>: the statistics are reset, with
  both times set from the clock, and the tree is counted.
\<close>

definition uploadStatisticsPass :: "int \<Rightarrow> entry list \<Rightarrow> TransferStats" where
  "uploadStatisticsPass now entries = calculateDirectoryStats entries (resetStats now)"

text \<open>
  The transfer pass. The object storage is a collaborator: \<open>put key\<close> tells how the
  \<open>PutObjectCommand\<close> for \<open>key\<close> ends, \<open>None\<close> for success and \<open>Some e\<close> when the call
  rejects with \<open>e\<close>.

  The chains started by \<open>uploadDirectory\<close> run concurrently, so a run is not one sequence
  of events. Each chain by itself is sequential: \<open>processEntry(index)\<close> awaits the transfer
  of its entry and then, in its \<open>finally\<close> block, awaits \<open>processEntry(index + 5)\<close>. The
  events of a chain are listed in that order; the upload of a subdirectory appears in the
  chain as one event holding the chains of the nested \<open>uploadDirectory\<close> call.
\<close>

type_synonym transport = "string \<Rightarrow> failure option"

datatype transfer_event =
    Started string
  | Succeeded string
  | Failed string failure
  | Nested "transfer_event list list"

text \<open>
  The result of an awaited promise of the transfer pass. \<open>rejections\<close> is empty when the
  promise resolves; otherwise the promise rejects, and the list holds the reasons it can
  reject with: \<open>Promise.all\<close> rejects with the reason of whichever of its promises rejects
  first, which depends on the order in which the transfers finish. \<open>stored\<close> lists the
  objects written by the \<open>PutObjectCommand\<close>s that succeeded.
\<close>

record Run =
  rejections :: "failure list"
  events :: "transfer_event list"
  stored :: "(string \<times> string) list"

text \<open>
  \<open>uploadFile(filePath, s3Key)\<close>: the file is sent under \<open>s3Key\<close>; an error is logged and
  thrown again.
\<close>

definition uploadFile :: "transport \<Rightarrow> string \<Rightarrow> string \<Rightarrow> Run" where
  "uploadFile put s3Key content =
     (case put s3Key of
        None \<Rightarrow> \<lparr>rejections = [], events = [Started s3Key, Succeeded s3Key], stored = [(s3Key, content)]\<rparr>
      | Some e \<Rightarrow> \<lparr>rejections = [e], events = [Started s3Key, Failed s3Key e], stored = []\<rparr>)"

text \<open>\<open>s3Prefix ? `${s3Prefix}/${entry.name}` : entry.name\<close>\<close>

definition entryS3Key :: "string \<Rightarrow> string \<Rightarrow> string" where
  "entryS3Key s3Prefix name = (if s3Prefix \<noteq> [] then s3Prefix @ ''/'' @ name else name)"

lemma size_nth_entries:
  "entries ! index = Directory name sub \<Longrightarrow> \<not> length entries \<le> index
     \<Longrightarrow> size_list size sub < size_list size entries"
proof -
  assume b: "entries ! index = Directory name sub" and a: "\<not> length entries \<le> index"
  from a have "entries ! index \<in> set entries" by simp
  then have "size (entries ! index) \<le> size_list size entries"
    by (simp add: size_list_estimation')
  with b show ?thesis by simp
qed

text \<open>
  How \<open>try { await a } finally { await b }\<close> ends, given how \<open>a\<close> and \<open>b\<close> end: the
  \<open>finally\<close> block runs whether \<open>a\<close> resolved or threw; when \<open>b\<close> throws, its error
  replaces the one of the \<open>try\<close> block, otherwise the error of the \<open>try\<close> block, if any,
  is thrown again.
\<close>

definition tryFinally :: "Run \<Rightarrow> Run \<Rightarrow> Run" where
  "tryFinally r1 r2 =
     \<lparr>rejections = (if rejections r2 \<noteq> [] then rejections r2 else rejections r1),
      events = events r1 @ events r2,
      stored = stored r1 @ stored r2\<rparr>"

text \<open>
  How \<open>await Promise.all(initialPromises)\<close> ends for concurrently running chains: it
  resolves when all of them resolve and rejects as soon as one of them rejects.
\<close>

definition promiseAll :: "Run list \<Rightarrow> Run" where
  "promiseAll rs =
     \<lparr>rejections = concat (map rejections rs),
      events = [Nested (map events rs)],
      stored = concat (map stored rs)\<rparr>"

text \<open>
  \<open>processEntry(index)\<close> of a call \<open>uploadDirectory(dirPath, s3Prefix)\<close> whose directory
  has the entries given, and \<open>uploadDirectory\<close> itself from the point where it reads the
  directory for the transfer. \<open>processEntry\<close> returns at once when the index is past the
  end; otherwise it awaits the upload of its entry (a recursive \<open>uploadDirectory\<close> for a
  directory, \<open>uploadFile\<close> for anything else) and, in the \<open>finally\<close> block, awaits
  \<open>processEntry(index + concurrencyLimit)\<close>. \<open>uploadDirectory\<close> starts \<open>processEntry(i)\<close>
  for the first \<open>min(concurrencyLimit, entries.length)\<close> indices and awaits them with
  \<open>Promise.all\<close>; its \<open>catch\<close> block logs and throws again.
\<close>

function processEntry :: "transport \<Rightarrow> string \<Rightarrow> entry list \<Rightarrow> nat \<Rightarrow> Run"
  and uploadDirectory :: "transport \<Rightarrow> entry list \<Rightarrow> string \<Rightarrow> Run" where
  "processEntry put s3Prefix entries index =
     (if index \<ge> length entries then \<lparr>rejections = [], events = [], stored = []\<rparr>
      else
        tryFinally
          (case entries ! index of
             Directory name sub \<Rightarrow> uploadDirectory put sub (entryS3Key s3Prefix name)
           | File name content \<Rightarrow> uploadFile put (entryS3Key s3Prefix name) content)
          (processEntry put s3Prefix entries (index + concurrencyLimit)))"
| "uploadDirectory put entries s3Prefix =
     promiseAll (map (processEntry put s3Prefix entries) [0 ..< min concurrencyLimit (length entries)])"
  by pat_completeness auto
termination
  by (relation "inv_image (less_than <*lex*> less_than)
        (\<lambda>x. case x of
           Inl (put, s3Prefix, entries, index) \<Rightarrow> (size_list size entries, Suc (length entries) - index)
         | Inr (put, entries, s3Prefix) \<Rightarrow> (size_list size entries, Suc (Suc (length entries))))")
     (auto simp: concurrencyLimit_def dest: size_nth_entries)

declare processEntry.simps [simp del] uploadDirectory.simps [simp del]

section \<open>Download direction (Deploy Service, aws.ts)\<close>

text \<open>
  An element of \<open>response.Contents\<close> and a response of \<open>listObjectsV2\<close>. In the SDK's
  types \<open>Key\<close>, \<open>Size\<close> and \<open>Contents\<close> are optional. The continuation token only
  selects the next response, so a listing is given as the responses in the order in which
  the loop receives them.
\<close>

record S3Object =
  Key :: "string option"
  Size :: "int option"

record ListResponse =
  Contents :: "S3Object list option"
  IsTruncated :: bool

text \<open>
  The body of the inner loop of \<open>calculateS3Stats\<close>: the guard \<open>obj.Size && obj.Size > 0\<close>
  holds for a size that is present, not zero and positive.
\<close>

definition countObject :: "S3Object \<Rightarrow> TransferStats \<Rightarrow> TransferStats" where
  "countObject obj st =
     (case Size obj of
        None \<Rightarrow> st
      | Some n \<Rightarrow>
          if n \<noteq> 0 \<and> n > 0
          then st\<lparr>totalFiles := totalFiles st + 1, totalBytes := totalBytes st + n\<rparr>
          else st)"

text \<open>
  \<open>calculateS3Stats\<close>: the loop asks for responses until one is not truncated. The result
  is \<open>None\<close> when the responses given end with a truncated one, that is, as long as the
  loop has not finished.
\<close>

fun calculateS3Stats :: "ListResponse list \<Rightarrow> TransferStats \<Rightarrow> TransferStats option" where
  "calculateS3Stats [] st = None"
| "calculateS3Stats (response # responses) st =
     (let st' = (case Contents response of None \<Rightarrow> st | Some objs \<Rightarrow> fold countObject objs st)
      in if IsTruncated response then calculateS3Stats responses st' else Some st')"

text \<open>
  The state of the transfer pass of \<open>downloadFromS3\<close>. \<open>calls\<close> are the calls
  \<open>downloadFile(obj.Key, localFilePath)\<close> made so far and \<open>downloadPromises\<close> the batches
  pushed so far (each batch by the keys of its promises). \<open>inFlight\<close> and \<open>highWater\<close> are
  not variables of the code: \<open>inFlight\<close> holds the keys of the \<open>downloadFile\<close> promises
  that have been created and have not settled, \<open>highWater\<close> the largest number of them so
  far. A call of \<open>downloadFile\<close> runs up to its first \<open>await\<close>, where the request
  for the object has been sent, and its promise can settle only while the caller is
  suspended in an \<open>await\<close> of its own. \<open>settledEarly\<close>, not a variable of the code
  either, holds the keys of the promises that settled while the loop was suspended in a
  later \<open>await listObjectsV2\<close>. At that time the promise of such a call is held by
  \<open>Promise.all(batchPromises).then(() => { })\<close> only, and nothing is attached to that
  promise before \<open>await Promise.all(downloadPromises)\<close> after the loop.
\<close>

record TransferPass =
  calls :: "(string \<times> string) list"
  downloadPromises :: "string list list"
  inFlight :: "string list"
  highWater :: nat
  settledEarly :: "string list"

text \<open>
  \<open>obj.Key.slice(s3Prefix.length)\<close>, without a leading slash, joined to \<open>localDir\<close>.
\<close>

definition localFilePath :: "string \<Rightarrow> string \<Rightarrow> string \<Rightarrow> string" where
  "localFilePath s3Prefix localDir key =
     (let relativePath = drop (length s3Prefix) key;
          cleanRelativePath =
            (if relativePath \<noteq> [] \<and> hd relativePath = CHR ''/'' then tl relativePath
             else relativePath)
      in posix_join [localDir, cleanRelativePath])"

text \<open>
  The body of the loop over \<open>response.Contents\<close>, with \<open>batchPromises\<close> as the first
  component. The guard \<open>obj.Key && obj.Size && obj.Size > 0\<close> asks for a key that is
  present and not empty and a size that is present and positive. Nothing is awaited here.
\<close>

definition processObject ::
    "string \<Rightarrow> string \<Rightarrow> S3Object \<Rightarrow> string list \<times> TransferPass \<Rightarrow> string list \<times> TransferPass" where
  "processObject s3Prefix localDir obj bs =
     (case bs of (batchPromises, st) \<Rightarrow>
        (case (Key obj, Size obj) of
           (Some key, Some n) \<Rightarrow>
             if key \<noteq> [] \<and> n \<noteq> 0 \<and> n > 0 then
               (let st1 = st\<lparr>calls := calls st @ [(key, localFilePath s3Prefix localDir key)],
                             inFlight := inFlight st @ [key],
                             highWater := max (highWater st) (Suc (length (inFlight st)))\<rparr>;
                    batch1 = batchPromises @ [key]
                in if length batch1 \<ge> concurrencyLimit
                   then ([], st1\<lparr>downloadPromises := downloadPromises st1 @ [batch1]\<rparr>)
                   else (batch1, st1))
             else (batchPromises, st)
         | _ \<Rightarrow> (batchPromises, st)))"

text \<open>
  The block \<open>if (response.Contents) { ... }\<close>: a fresh \<open>batchPromises\<close>, the loop over
  the objects, and the push of a last, incomplete batch.
\<close>

definition processContents :: "string \<Rightarrow> string \<Rightarrow> S3Object list \<Rightarrow> TransferPass \<Rightarrow> TransferPass" where
  "processContents s3Prefix localDir objs st =
     (case fold (processObject s3Prefix localDir) objs ([], st) of
        (batchPromises, st') \<Rightarrow>
          if batchPromises \<noteq> [] then st'\<lparr>downloadPromises := downloadPromises st' @ [batchPromises]\<rparr>
          else st')"

text \<open>
  The \<open>while (!finished)\<close> loop of the transfer pass. While the loop is suspended in its
  \<open>k\<close>-th \<open>await listObjectsV2\<close>, transfers started earlier can settle: \<open>settled k key\<close>
  tells whether the one for \<open>key\<close> does. As for \<open>calculateS3Stats\<close>, the result is
  \<open>None\<close> as long as the loop has not finished.
\<close>

fun transferLoop ::
    "(nat \<Rightarrow> string \<Rightarrow> bool) \<Rightarrow> nat \<Rightarrow> string \<Rightarrow> string \<Rightarrow> ListResponse list \<Rightarrow> TransferPass
       \<Rightarrow> TransferPass option" where
  "transferLoop settled k s3Prefix localDir [] st = None"
| "transferLoop settled k s3Prefix localDir (response # responses) st =
     (let st0 = st\<lparr>inFlight := filter (\<lambda>key. \<not> settled k key) (inFlight st),
                   settledEarly := settledEarly st @ filter (settled k) (inFlight st)\<rparr>;
          st1 = (case Contents response of
                   None \<Rightarrow> st0
                 | Some objs \<Rightarrow> processContents s3Prefix localDir objs st0)
      in if IsTruncated response then transferLoop settled (Suc k) s3Prefix localDir responses st1
         else Some st1)"

text \<open>
  How a call \<open>downloadFile(s3Key, localFilePath)\<close> ends.

  \<^item> \<open>Written bytes\<close>: the write stream emits \<open>finish\<close>, the promise resolves, and the
    local file holds the bytes.
  \<^item> \<open>Rejects e\<close>: the promise rejects with \<open>e\<close>. This is so when \<open>headObject\<close> rejects
    (the \<open>catch\<close> block logs and throws again) and when the write stream emits \<open>error\<close>:
    the listener that calls \<open>reject\<close> is registered on what \<open>.pipe(outputFile)\<close> returns,
    which is the write stream.
  \<^item> \<open>ReadError e\<close>: the read stream of \<open>getObject\<close> emits \<open>error\<close> (the request for
    the object fails, or the connection breaks during the transfer). No listener is
    registered on the read stream, so no handler receives the error, and the promise never
    settles.
\<close>

datatype fileTransfer =
    Written string
  | Rejects failure
  | ReadError failure

text \<open>
  What a sync in the download direction does. \<open>d_stats\<close> are the statistics after the
  statistics pass and \<open>d_pass\<close> is the transfer pass when the loop is left. \<open>d_uncaught\<close>
  lists the errors that no handler receives: the read-stream errors of the transfers
  started, and the rejections of the calls that settled while the loop was suspended in a
  later \<open>listObjectsV2\<close>. When there is one, the process ends. \<open>d_rejections\<close> lists the
  reasons with which \<open>await Promise.all(downloadPromises)\<close> can reject (as \<open>rejections\<close>
  does for the upload): the reasons of the calls of \<open>downloadFile\<close> that reject. It tells
  how the call of \<open>downloadFromS3\<close> ends when \<open>d_uncaught\<close> is empty: the call resolves
  when the list is empty and rejects with one of the reasons otherwise. \<open>d_written\<close> lists
  the local files written by the calls of \<open>downloadFile\<close> that resolve, each with its bytes.
\<close>

record DownloadRun =
  d_stats :: TransferStats
  d_pass :: TransferPass
  d_rejections :: "failure list"
  d_written :: "(string \<times> string) list"
  d_uncaught :: "failure list"

text \<open>
  \<open>downloadFromS3(s3Prefix, localDir)\<close>. The object storage is a collaborator: the
  responses are what \<open>listObjectsV2\<close> answers for the prefix (the same for both passes), and
  \<open>fetch key\<close> tells how the call of \<open>downloadFile\<close> for \<open>key\<close> ends. Creating
  \<open>localDir\<close> and the parent directories of the files is taken to succeed.
\<close>

definition downloadFromS3 ::
    "(nat \<Rightarrow> string \<Rightarrow> bool) \<Rightarrow> (string \<Rightarrow> fileTransfer) \<Rightarrow> int \<Rightarrow> ListResponse list
       \<Rightarrow> string \<Rightarrow> string \<Rightarrow> DownloadRun option" where
  "downloadFromS3 settled fetch now responses s3Prefix localDir =
     (case calculateS3Stats responses (resetStats now) of
        None \<Rightarrow> None
      | Some sts \<Rightarrow>
          (case transferLoop settled 0 s3Prefix localDir responses
                  \<lparr>calls = [], downloadPromises = [], inFlight = [], highWater = 0, settledEarly = []\<rparr> of
             None \<Rightarrow> None
           | Some pass \<Rightarrow>
               Some \<lparr>d_stats = sts, d_pass = pass,
                     d_rejections =
                       concat (map (\<lambda>(key, path). case fetch key of Rejects e \<Rightarrow> [e] | _ \<Rightarrow> [])
                                 (calls pass)),
                     d_written =
                       concat (map (\<lambda>(key, path). case fetch key of Written bytes \<Rightarrow> [(path, bytes)] | _ \<Rightarrow> [])
                                 (calls pass)),
                     d_uncaught =
                       concat (map (\<lambda>(key, path). case fetch key of ReadError e \<Rightarrow> [e] | _ \<Rightarrow> [])
                                 (calls pass))
                       @ concat (map (\<lambda>key. case fetch key of Rejects e \<Rightarrow> [e] | _ \<Rightarrow> [])
                                   (settledEarly pass))\<rparr>))"

text \<open>
  How the call of \<open>downloadFromS3\<close> ends, as its caller sees it: the process ends on an
  error that no handler receives; otherwise the call rejects with the reason of one of the
  calls of \<open>downloadFile\<close> that reject, or resolves when there is none.
\<close>

definition endsAs :: "DownloadRun \<Rightarrow> ending \<Rightarrow> bool" where
  "endsAs run x =
     (case x of
        Resolves \<Rightarrow> d_uncaught run = [] \<and> d_rejections run = []
      | RejectsWith e \<Rightarrow> d_uncaught run = [] \<and> e \<in> set (d_rejections run)
      | ProcessEnds e \<Rightarrow> e \<in> set (d_uncaught run))"

text \<open>
  \<open>downloadS3Folder(id)\<close>: \<open>downloadFromS3(id, `output/${id}`)\<close>; the \<open>catch\<close> block logs
  and throws again.
\<close>

definition downloadS3Folder ::
    "(nat \<Rightarrow> string \<Rightarrow> bool) \<Rightarrow> (string \<Rightarrow> fileTransfer) \<Rightarrow> int \<Rightarrow> ListResponse list
       \<Rightarrow> string \<Rightarrow> DownloadRun option" where
  "downloadS3Folder settled fetch now responses ident =
     downloadFromS3 settled fetch now responses ident (''output/'' @ ident)"

section \<open>Sample collaborators and inputs\<close>

text \<open>
  A transport on which every transfer succeeds, and one on which the transfer for one key
  fails; a download on which the call for one key rejects, and one on which the read stream
  for one key fails, while every other call writes the given bytes; a timing under which no
  transfer settles before the last await, and one under which the transfer for one key
  settles during the \<open>n\<close>-th listing call (counted from 0); a tree of two directories of
  three files each; a directory of six small files.
\<close>

definition allSucceed :: transport where
  "allSucceed k = None"



definition readErrorOn :: "string \<Rightarrow> failure \<Rightarrow> string \<Rightarrow> string \<Rightarrow> fileTransfer" where
  "readErrorOn key e bytes k = (if k = key then ReadError e else Written bytes)"

definition neverSettled :: "nat \<Rightarrow> string \<Rightarrow> bool" where
  "neverSettled k key = False"


definition twoDirectories :: "entry list" where
  "twoDirectories =
     [Directory ''css'' [File ''a.css'' ''a'', File ''b.css'' ''b'', File ''c.css'' ''c''],
      Directory ''js'' [File ''a.js'' ''a'', File ''b.js'' ''b'', File ''c.js'' ''c'']]"


section \<open>Object storage\<close>

text \<open>
  A stand-in for the object storage service, which is not part of the repository: a bucket
  is a list of keys with their bytes. Listing by prefix answers with the objects whose key
  starts with the prefix, at most \<open>maxKeys\<close> per response, all responses but the last
  truncated; the download of an object that is there writes its bytes, and for a key
  that is not there \<open>headObject\<close> rejects.
\<close>

type_synonym bucket = "(string \<times> string) list"

definition putObjects :: "(string \<times> string) list \<Rightarrow> bucket \<Rightarrow> bucket" where
  "putObjects objs b = fold (\<lambda>(key, bytes) b. (key, bytes) # filter (\<lambda>(k, v). k \<noteq> key) b) objs b"

definition listed :: "bucket \<Rightarrow> string \<Rightarrow> S3Object list" where
  "listed b s3Prefix =
     map (\<lambda>(key, bytes). \<lparr>Key = Some key, Size = Some (int (length bytes))\<rparr>)
       (filter (\<lambda>(key, bytes). take (length s3Prefix) key = s3Prefix) b)"

fun paginate :: "nat \<Rightarrow> nat \<Rightarrow> S3Object list \<Rightarrow> ListResponse list" where
  "paginate 0 maxKeys objs = [\<lparr>Contents = Some objs, IsTruncated = False\<rparr>]"
| "paginate (Suc pages) maxKeys objs =
     (if length objs \<le> maxKeys then [\<lparr>Contents = Some objs, IsTruncated = False\<rparr>]
      else \<lparr>Contents = Some (take maxKeys objs), IsTruncated = True\<rparr>
             # paginate pages maxKeys (drop maxKeys objs))"

definition listObjectsV2 :: "nat \<Rightarrow> bucket \<Rightarrow> string \<Rightarrow> ListResponse list" where
  "listObjectsV2 maxKeys b s3Prefix = paginate (length (listed b s3Prefix)) maxKeys (listed b s3Prefix)"

definition getObject :: "bucket \<Rightarrow> string \<Rightarrow> fileTransfer" where
  "getObject b key = (case map_of b key of None \<Rightarrow> Rejects (Underlying ''NotFound'') | Some bytes \<Rightarrow> Written bytes)"

text \<open>
  The files of the tree rooted at the directory \<open>dir\<close>, each with its path, which is
  \<open>path.join(dir, entry.name)\<close> at every level as in the uploader, and its bytes: what a
  faithful copy of the tree in \<open>dir\<close> has to contain.
\<close>

fun filesOf :: "string \<Rightarrow> entry \<Rightarrow> (string \<times> string) list" where
  "filesOf dir (File name content) = [(posix_join [dir, name], content)]"
| "filesOf dir (Directory name entries) = concat (map (filesOf (posix_join [dir, name])) entries)"

definition treeFiles :: "string \<Rightarrow> entry list \<Rightarrow> (string \<times> string) list" where
  "treeFiles dir entries = concat (map (filesOf dir) entries)"

text \<open>
  The round trip: the tree is uploaded under \<open>s3Prefix\<close> into an empty bucket, over a
  transport on which every transfer succeeds, and then downloaded from that prefix into
  \<open>localDir\<close>.
\<close>

definition roundTrip :: "entry list \<Rightarrow> string \<Rightarrow> string \<Rightarrow> DownloadRun option" where
  "roundTrip entries s3Prefix localDir =
     (let b = putObjects (stored (uploadDirectory allSucceed entries s3Prefix)) []
      in downloadFromS3 neverSettled (getObject b) 0 (listObjectsV2 1000 b s3Prefix) s3Prefix localDir)"

section \<open>Reading a run of the upload\<close>

text \<open>
  The objects that \<open>uploadDirectory(dirPath, s3Prefix)\<close> has to store for the files of
  the tree: the bytes of each file under the key \<open>s3Prefix/name\<close>, applied at every level.
\<close>

fun objectsOf :: "string \<Rightarrow> entry \<Rightarrow> (string \<times> string) list" where
  "objectsOf s3Prefix (File name content) = [(entryS3Key s3Prefix name, content)]"
| "objectsOf s3Prefix (Directory name entries) =
     concat (map (objectsOf (entryS3Key s3Prefix name)) entries)"

definition treeObjects :: "string \<Rightarrow> entry list \<Rightarrow> (string \<times> string) list" where
  "treeObjects s3Prefix entries = concat (map (objectsOf s3Prefix) entries)"



text \<open>
  The entries that \<open>uploadFile\<close> writes to the error log in its \<open>catch\<close> block,
  \<open>Logger.upload.fileError(filePath, s3Key, error)\<close>, each given by the key and the error:
  those of an event, and those of a list of events.
\<close>

fun fileErrorsOf :: "transfer_event \<Rightarrow> (string \<times> failure) list" where
  "fileErrorsOf (Started key) = []"
| "fileErrorsOf (Succeeded key) = []"
| "fileErrorsOf (Failed key e) = [(key, e)]"
| "fileErrorsOf (Nested css) = concat (map (\<lambda>c. concat (map fileErrorsOf c)) css)"

definition fileErrors :: "transfer_event list \<Rightarrow> (string \<times> failure) list" where
  "fileErrors evs = concat (map fileErrorsOf evs)"

text \<open>
  The transfers with which the chains of a run begin: the first event of every chain, and
  for the upload of a subdirectory the first events of its chains. No transfer has to
  settle before these are started.
\<close>

fun firstOfEvent :: "transfer_event \<Rightarrow> string list"
  and firstOfChain :: "transfer_event list \<Rightarrow> string list"
  and firstOfChains :: "transfer_event list list \<Rightarrow> string list" where
  "firstOfEvent (Started key) = [key]"
| "firstOfEvent (Succeeded key) = []"
| "firstOfEvent (Failed key e) = []"
| "firstOfEvent (Nested css) = firstOfChains css"
| "firstOfChain [] = []"
| "firstOfChain (ev # evs) = firstOfEvent ev"
| "firstOfChains [] = []"
| "firstOfChains (c # cs) = firstOfChain c @ firstOfChains cs"


section \<open>Reading a listing\<close>

text \<open>
  The objects that pass the guard \<open>obj.Key && obj.Size && obj.Size > 0\<close> of the transfer
  pass, and the key of such an object.
\<close>

definition downloadable :: "S3Object \<Rightarrow> bool" where
  "downloadable obj =
     (case (Key obj, Size obj) of
        (Some key, Some n) \<Rightarrow> key \<noteq> [] \<and> n \<noteq> 0 \<and> n > 0
      | _ \<Rightarrow> False)"

definition keyOf :: "S3Object \<Rightarrow> string" where
  "keyOf obj = (case Key obj of Some key \<Rightarrow> key | None \<Rightarrow> [])"

text \<open>
  The size of a listed object, 0 when it is absent, and the objects that a loop over a
  listing sees: those of the responses up to the first one that is not truncated.
\<close>

definition sizeOf :: "S3Object \<Rightarrow> int" where
  "sizeOf obj = (case Size obj of Some n \<Rightarrow> n | None \<Rightarrow> 0)"

fun listedObjects :: "ListResponse list \<Rightarrow> S3Object list" where
  "listedObjects [] = []"
| "listedObjects (response # responses) =
     (case Contents response of None \<Rightarrow> [] | Some objs \<Rightarrow> objs)
       @ (if IsTruncated response then listedObjects responses else [])"

text \<open>A response of a listing without the objects whose size is 0.\<close>

definition withoutZeroByte :: "ListResponse \<Rightarrow> ListResponse" where
  "withoutZeroByte response =
     response\<lparr>Contents := map_option (filter (\<lambda>obj. Size obj \<noteq> Some 0)) (Contents response)\<rparr>"

text \<open>
  A page of objects of one byte each, one for each of the keys: the last page of a listing,
  and a page after which the listing goes on.
\<close>

definition pageOf :: "string list \<Rightarrow> ListResponse" where
  "pageOf keys = \<lparr>Contents = Some (map (\<lambda>k. \<lparr>Key = Some k, Size = Some 1\<rparr>) keys), IsTruncated = False\<rparr>"



section \<open>Publishing the build output (Deploy Service, aws.ts)\<close>

text \<open>\<open>.replace(/\\\\/g, '/')\<close>: every backslash becomes a slash.\<close>

definition replaceBackslashes :: "string \<Rightarrow> string" where
  "replaceBackslashes key = map (\<lambda>c. if c = CHR 0x5C then CHR ''/'' else c) key"

text \<open>
  \<open>processDirectory(dir, relativePath)\<close> in \<open>uploadDirectory\<close> of the Deploy Service's
  uploader, as far as the keys go for which \<open>uploadFile\<close> is called: for an entry,
  \<open>entryRelPath = path.join(relativePath, entry.name)\<close>; a directory is processed with
  \<open>entryRelPath\<close> as its relative path, any other entry is uploaded under
  \<open>path.posix.join(s3Prefix, entryRelPath)\<close> with backslashes replaced. The queue of pending
  uploads in that function decides when a call is made, not for which keys.
\<close>

fun processDirectoryEntry :: "string \<Rightarrow> string \<Rightarrow> entry \<Rightarrow> string list" where
  "processDirectoryEntry s3Prefix relativePath (File name content) =
     [replaceBackslashes (posix_join [s3Prefix, posix_join [relativePath, name]])]"
| "processDirectoryEntry s3Prefix relativePath (Directory name entries) =
     concat (map (processDirectoryEntry s3Prefix (posix_join [relativePath, name])) entries)"

definition processDirectory :: "string \<Rightarrow> entry list \<Rightarrow> string \<Rightarrow> string list" where
  "processDirectory s3Prefix entries relativePath =
     concat (map (processDirectoryEntry s3Prefix relativePath) entries)"

text \<open>
  \<open>uploadDistFolder(id, deploymentId)\<close>: the prefix is
  \<open>deploymentId ? `deployments/${id}/${deploymentId}` : `deployments/${id}`\<close>, where an
  absent and an empty \<open>deploymentId\<close> are both false. The dist directory is given by its
  entries, or \<open>None\<close> when it does not exist; then nothing is uploaded.
\<close>

definition distS3Prefix :: "string \<Rightarrow> string option \<Rightarrow> string" where
  "distS3Prefix ident deploymentId =
     (case deploymentId of
        None \<Rightarrow> ''deployments/'' @ ident
      | Some d \<Rightarrow> if d \<noteq> [] then ''deployments/'' @ ident @ ''/'' @ d else ''deployments/'' @ ident)"

definition uploadDistFolder_keys :: "string \<Rightarrow> string option \<Rightarrow> entry list option \<Rightarrow> string list" where
  "uploadDistFolder_keys ident deploymentId distDir =
     (case distDir of
        None \<Rightarrow> []
      | Some entries \<Rightarrow> processDirectory (distS3Prefix ident deploymentId) entries [])"

section \<open>Serving content (Request Service, controllers/serve.ts)\<close>

text \<open>
  The key that \<open>serveFileController\<close> asks the object storage for:
  \<open>`dist/${id}${filePath}`\<close> with \<open>id = host.split(".")[0]\<close>.
\<close>

definition serveFileKey :: "string \<Rightarrow> string \<Rightarrow> string" where
  "serveFileKey host filePath = ''dist/'' @ takeWhile (\<lambda>c. c \<noteq> CHR ''.'') host @ filePath"

text \<open>
  A name as \<open>readdir\<close> returns it, and as the identifiers of this system are (a UUID, a
  timestamp with \<open>:\<close> and \<open>.\<close> replaced by \<open>-\<close>): not empty, without a slash, and neither
  \<open>.\<close> nor \<open>..\<close>.
\<close>

definition plainName :: "string \<Rightarrow> bool" where
  "plainName name = (name \<noteq> [] \<and> CHR ''/'' \<notin> set name \<and> name \<noteq> ''.'' \<and> name \<noteq> ''..'')"

fun plainNames :: "entry \<Rightarrow> bool" where
  "plainNames (File name content) = plainName name"
| "plainNames (Directory name entries) = (plainName name \<and> list_all plainNames entries)"

section \<open>Reading a tree\<close>

text \<open>
  The files of an entry, each with the names on the way to it and its bytes. In a directory
  as the file system has it, the names are plain and no name occurs twice.
\<close>

fun relativeFiles :: "entry \<Rightarrow> (string list \<times> string) list" where
  "relativeFiles (File name content) = [([name], content)]"
| "relativeFiles (Directory name entries) =
     map (\<lambda>(segs, bytes). (name # segs, bytes)) (concat (map relativeFiles entries))"

definition treeRelativeFiles :: "entry list \<Rightarrow> (string list \<times> string) list" where
  "treeRelativeFiles entries = concat (map relativeFiles entries)"

fun entryName :: "entry \<Rightarrow> string" where
  "entryName (File name content) = name"
| "entryName (Directory name entries) = name"

fun wellFormed :: "entry \<Rightarrow> bool" where
  "wellFormed (File name content) = plainName name"
| "wellFormed (Directory name entries) =
     (plainName name \<and> distinct (map entryName entries) \<and> list_all wellFormed entries)"

definition wellFormedTree :: "entry list \<Rightarrow> bool" where
  "wellFormedTree entries = (distinct (map entryName entries) \<and> list_all wellFormed entries)"

section \<open>Job submission (Upload Service, controllers/upload.ts)\<close>

text \<open>
  What \<open>uploadController\<close> meets: the identifier that \<open>uuidv4()\<close> returns, the working
  directory against which \<open>path.resolve\<close> resolves, how the clone and the directory upload
  end, how the promise returned by \<open>publisher.lPush\<close> settles, and the two readings of the
  clock (on entry, and when \<open>totalDuration\<close> is computed).
\<close>

record SubmitEnv =
  uuid :: string
  cwd :: string
  cloneOutcome :: "failure option"
  directoryUploadOutcome :: "failure option"
  pushOutcome :: "failure option"
  clockOnEntry :: int
  clockAtEnd :: int

datatype call =
    Clone string string
  | UploadDirectory string string
  | LPush string string

text \<open>
  The response: \<open>res.json({id, processingTimeMs})\<close>, or status 500 with the body
  \<open>{error, message, processingTimeMs}\<close>, where the message is the one of the error caught.
\<close>

datatype response =
    Success string int
  | Failure500 failure int

record Submission =
  responseSent :: response
  collaboratorCalls :: "call list"
  buildQueue :: "string list"

text \<open>
  \<open>uploadController\<close>. The clone and the upload are awaited inside the outer \<open>try\<close>, so
  an error of either reaches the \<open>catch\<close> block, which answers with status 500.
  \<open>publisher.lPush("build-queue", id)\<close> is called without \<open>await\<close>: the response is sent
  right after the call, and the element is on the queue only if the push succeeds.
\<close>

definition uploadController :: "SubmitEnv \<Rightarrow> string \<Rightarrow> string list \<Rightarrow> Submission" where
  "uploadController env repoUrl queue =
     (let ident = uuid env;
          outputDir = ''output/'' @ ident;
          totalDuration = clockAtEnd env - clockOnEntry env
      in case cloneOutcome env of
           Some cloneError \<Rightarrow>
             \<lparr>responseSent = Failure500 cloneError totalDuration,
              collaboratorCalls = [Clone repoUrl outputDir],
              buildQueue = queue\<rparr>
         | None \<Rightarrow>
             (let absolutePath = posix_join [cwd env, outputDir]
              in case directoryUploadOutcome env of
                   Some uploadError \<Rightarrow>
                     \<lparr>responseSent = Failure500 uploadError totalDuration,
                      collaboratorCalls = [Clone repoUrl outputDir, UploadDirectory absolutePath ident],
                      buildQueue = queue\<rparr>
                 | None \<Rightarrow>
                     \<lparr>responseSent = Success ident totalDuration,
                      collaboratorCalls =
                        [Clone repoUrl outputDir, UploadDirectory absolutePath ident,
                         LPush ''build-queue'' ident],
                      buildQueue = (case pushOutcome env of None \<Rightarrow> ident # queue | Some e \<Rightarrow> queue)\<rparr>))"

section \<open>Describing a run of the upload\<close>

text \<open>
  The indices that the chain started with \<open>processEntry(index)\<close> visits in a directory of
  \<open>n\<close> entries: \<open>index\<close>, \<open>index + concurrencyLimit\<close>, and so on below \<open>n\<close>.
\<close>

definition visits :: "nat \<Rightarrow> nat \<Rightarrow> nat \<Rightarrow> bool" where
  "visits n index j = (j < n \<and> index \<le> j \<and> (j - index) mod concurrencyLimit = 0)"

text \<open>
  For a set of objects to be stored: the errors of those whose transfer fails, those whose
  transfer succeeds, and the keys whose transfer fails, each with its error. A run is
  described by a set of objects when it rejects exactly if one of their transfers fails,
  then with one of their errors, stores exactly those whose transfer succeeds, and writes
  to the error log exactly the keys whose transfer fails, each with its error.
  \<open>chainObjects\<close> are the objects of the entries that a chain visits.
\<close>

definition fails :: "transport \<Rightarrow> (string \<times> string) set \<Rightarrow> failure set" where
  "fails put C = {e. \<exists>(key, bytes) \<in> C. put key = Some e}"

definition oks :: "transport \<Rightarrow> (string \<times> string) set \<Rightarrow> (string \<times> string) set" where
  "oks put C = {(key, bytes) \<in> C. put key = None}"

definition failedKeys :: "transport \<Rightarrow> (string \<times> string) set \<Rightarrow> (string \<times> failure) set" where
  "failedKeys put C = {(key, e). (\<exists>bytes. (key, bytes) \<in> C) \<and> put key = Some e}"

definition describes :: "transport \<Rightarrow> Run \<Rightarrow> (string \<times> string) set \<Rightarrow> bool" where
  "describes put r C \<longleftrightarrow>
     set (rejections r) \<subseteq> fails put C \<and> (rejections r = [] \<longleftrightarrow> fails put C = {})
     \<and> set (stored r) = oks put C
     \<and> set (fileErrors (events r)) = failedKeys put C"

definition chainObjects :: "string \<Rightarrow> entry list \<Rightarrow> nat \<Rightarrow> (string \<times> string) set" where
  "chainObjects s3Prefix entries index =
     (\<Union>j \<in> {j. visits (length entries) index j}. set (objectsOf s3Prefix (entries ! j)))"

section \<open>Paths made of plain names\<close>

text \<open>A path that consists of plain names separated by single slashes.\<close>

definition cleanPath :: "string \<Rightarrow> bool" where
  "cleanPath p = (\<exists>segs. segs \<noteq> [] \<and> (\<forall>s \<in> set segs. plainName s) \<and> p = join_slash segs)"

section \<open>Reading a bucket\<close>

text \<open>
  The listed object of a stored one, and a set of stored objects in which a key has one
  value only.
\<close>

definition toObject :: "string \<times> string \<Rightarrow> S3Object" where
  "toObject kb = \<lparr>Key = Some (fst kb), Size = Some (int (length (snd kb)))\<rparr>"

definition functional :: "(string \<times> string) set \<Rightarrow> bool" where
  "functional S = (\<forall>k v v'. (k, v) \<in> S \<longrightarrow> (k, v') \<in> S \<longrightarrow> v = v')"

section \<open>Progress throttling\<close>

lemma lastLogTime_fileCompleted:
  "lastLogTime (snd (fileCompleted now sz st)) =
     (if now - lastLogTime st \<ge> logIntervalMs then now else lastLogTime st)"
  by (simp add: fileCompleted_def logProgress_def)

lemma fileCompleted_emits_iff:
  "fst (fileCompleted now sz st) \<noteq> None \<longleftrightarrow> now - lastLogTime st \<ge> logIntervalMs"
  by (simp add: fileCompleted_def logProgress_def)

lemma completions_spaced:
  "successively (\<lambda>a b. b - a \<ge> logIntervalMs)
     (lastLogTime st # map fst (fst (completions evs st)))"
proof (induction evs arbitrary: st)
  case Nil
  show ?case by simp
next
  case (Cons ev evs)
  obtain now sz where ev: "ev = (now, sz)" by (cases ev)
  obtain r st' where fc: "fileCompleted now sz st = (r, st')" by (cases "fileCompleted now sz st")
  have llt: "lastLogTime st' = (if now - lastLogTime st \<ge> logIntervalMs then now else lastLogTime st)"
    using lastLogTime_fileCompleted [of now sz st] fc by simp
  have emits: "r \<noteq> None \<longleftrightarrow> now - lastLogTime st \<ge> logIntervalMs"
    using fileCompleted_emits_iff [of now sz st] fc by simp
  show ?case
  proof (cases r)
    case None
    with emits llt have "lastLogTime st' = lastLogTime st" by simp
    with Cons.IH [of st'] None ev fc show ?thesis by simp
  next
    case (Some p)
    with emits llt have now: "lastLogTime st' = now" and ge: "now - lastLogTime st \<ge> logIntervalMs"
      by simp_all
    obtain ps st'' where rest: "completions evs st' = (ps, st'')" by (cases "completions evs st'")
    from Cons.IH [of st'] now rest
    have "successively (\<lambda>a b. b - a \<ge> logIntervalMs) (now # map fst ps)" by simp
    with ge Some ev fc rest show ?thesis by simp
  qed
qed

text \<open>
  Claim C8. \<open>logProgress\<close> emits an observation exactly when at least the configured
  interval (2000 ms) has elapsed on the clock since \<open>lastLogTime\<close>; when it emits it sets
  \<open>lastLogTime\<close> to the clock value, otherwise the statistics are unchanged. Therefore, over
  any sequence of file completions, however bursty, each emission is at least one interval
  after the previous one (and the first at least one interval after the initial
  \<open>lastLogTime\<close>): at most one observation per interval.
\<close>

theorem C8_progress_throttled:
  "(fst (logProgress now st) \<noteq> None \<longleftrightarrow> now - lastLogTime st \<ge> logIntervalMs)
   \<and> (fst (logProgress now st) \<noteq> None \<longrightarrow> snd (logProgress now st) = st\<lparr>lastLogTime := now\<rparr>)
   \<and> (fst (logProgress now st) = None \<longrightarrow> snd (logProgress now st) = st)
   \<and> successively (\<lambda>a b. b - a \<ge> logIntervalMs)
        (lastLogTime st # map fst (fst (completions evs st)))"
  using completions_spaced [of st evs] by (simp add: logProgress_def)

theorem C8_progress_throttled_witness:
  "map fst (fst (completions [(1000, 10), (2100, 20), (2150, 30), (4099, 5), (4100, 7)] (resetStats 100)))
     = [2100, 4100]
   \<and> fst (logProgress 2100 (resetStats 100)) \<noteq> None
   \<and> snd (logProgress 2100 (resetStats 100)) = (resetStats 100)\<lparr>lastLogTime := 2100\<rparr>
   \<and> fst (logProgress 2099 (resetStats 100)) = None"
  using C8_progress_throttled [of 2100 "resetStats 100" "[]"]
  by (simp add: fileCompleted_def logProgress_def resetStats_def logIntervalMs_def)

section \<open>Orchestrator: status recording\<close>

text \<open>The status store changes only on a run whose build subprocess exited with code 0.\<close>

lemma buildProject_status_only_after_exit_0:
  "snd (buildProject ident env st) \<noteq> st \<Longrightarrow> projectDirExists env \<and> exitCode env = Some 0"
  by (auto simp: buildProject_def Let_def split: if_splits sum.splits)

text \<open>
  Claim C1. The claim is that the status record marking a job as deployed is written only
  after the build exited with code 0, the dist folder was found and the publish succeeded.
  In \<open>buildProject\<close> the \<open>hSet\<close> is the first thing done on exit code 0: when the dist
  folder is missing, and when the publish fails, the promise rejects and the status store
  nevertheless holds \<open>Deployed\<close> for the job.
\<close>

theorem C1_status_written_before_verification:
  "buildProject ''abc123''
      \<lparr>projectDirExists = True, exitCode = Some 0, distExists = False, uploadOutcome = None\<rparr> Map.empty
     = (Inl (BuildDidNotGenerateDist ''abc123''), [''abc123'' \<mapsto> ''Deployed''])
   \<and> buildProject ''abc123''
      \<lparr>projectDirExists = True, exitCode = Some 0, distExists = True,
        uploadOutcome = Some (Underlying ''AccessDenied'')\<rparr> Map.empty
     = (Inl (Underlying ''AccessDenied''), [''abc123'' \<mapsto> ''Deployed''])"
  by (simp add: buildProject_def uploadDistFolder_outcome_def)

section \<open>Orchestrator: the consumer loop\<close>

text \<open>
  The status hash after \<open>buildProject\<close>: it holds \<open>Deployed\<close> for the job exactly when
  the \<open>hSet\<close> was issued.
\<close>

lemma buildProject_status:
  "snd (buildProject ident env st) = (if hSetIssued env then st(ident \<mapsto> ''Deployed'') else st)"
  by (auto simp: buildProject_def hSetIssued_def uploadDistFolder_outcome_def Let_def
           split: option.splits)

text \<open>
  An error thrown in the \<open>try\<close> block is caught: the pass ends with the error logged and
  the 5000 ms pause, and the process goes on. An error that no handler receives ends the
  process, with nothing logged by the loop, and no further pass is made.
\<close>

lemma trace_tryBlock:
  "\<exists>evs. trace (snd (tryBlock inp s)) = trace s @ BrPop # evs \<and> (\<forall>e. CaughtError e \<notin> set evs)
      \<and> ended (snd (tryBlock inp s)) = ended s"
  by (auto simp: tryBlock_def emit_def Let_def
           split: sum.splits option.splits prod.splits ending.splits)

lemma iteration_catches:
  assumes "fst (tryBlock inp s) = RejectsWith e"
  shows "\<exists>evs. trace (iteration inp s) = trace s @ BrPop # evs @ [CaughtError e, Sleep 5000]
           \<and> (\<forall>e'. CaughtError e' \<notin> set evs) \<and> ended (iteration inp s) = ended s"
proof -
  obtain r s' where tb: "tryBlock inp s = (r, s')" by (cases "tryBlock inp s")
  from trace_tryBlock [of inp s] tb obtain evs where
    "trace s' = trace s @ BrPop # evs" "\<forall>e. CaughtError e \<notin> set evs" "ended s' = ended s"
    by auto
  with assms tb show ?thesis by (simp add: iteration_def emit_def)
qed

lemma iteration_ends:
  assumes "fst (tryBlock inp s) = ProcessEnds e"
  shows "\<exists>evs. trace (iteration inp s) = trace s @ BrPop # evs
           \<and> (\<forall>e'. CaughtError e' \<notin> set evs) \<and> ended (iteration inp s) = Some e"
proof -
  obtain r s' where tb: "tryBlock inp s = (r, s')" by (cases "tryBlock inp s")
  from trace_tryBlock [of inp s] tb obtain evs where
    "trace s' = trace s @ BrPop # evs" "\<forall>e. CaughtError e \<notin> set evs"
    by auto
  with assms tb show ?thesis by (simp add: iteration_def)
qed

lemma main_loop_ended: "ended s = Some e \<Longrightarrow> main_loop inps s = s"
  by (cases inps) simp_all

text \<open>
  A download that rejects: the error is caught, and after the pause the next job is taken
  from the queue and processed.
\<close>

lemma loop_continues_after_rejection:
  "trace (main_loop
      [\<lparr>popOutcome = Inr (Some ''abc123''), downloadOutcome = RejectsWith (Underlying ''SlowDown''),
        buildEnv = \<lparr>projectDirExists = True, exitCode = Some 0, distExists = True, uploadOutcome = None\<rparr>,
        hSetOutcome = None\<rparr>,
       \<lparr>popOutcome = Inr (Some ''def456''), downloadOutcome = Resolves,
        buildEnv = \<lparr>projectDirExists = True, exitCode = Some 0, distExists = True, uploadOutcome = None\<rparr>,
        hSetOutcome = None\<rparr>]
      \<lparr>status = Map.empty, trace = [], ended = None\<rparr>)
    = [BrPop, Received ''abc123'', CaughtError (Underlying ''SlowDown''), Sleep 5000,
       BrPop, Received ''def456'', ProcessingComplete ''def456'']"
  by (simp add: iteration_def tryBlock_def emit_def buildProject_def uploadDistFolder_outcome_def
        hSetIssued_def)

text \<open>
  The promise of \<open>publisher.hSet\<close> is not awaited: when the status hash cannot be written,
  the rejection reaches no handler and the process ends during the build.
\<close>

lemma hSet_rejection_ends_loop:
  "trace (main_loop
      [\<lparr>popOutcome = Inr (Some ''abc123''), downloadOutcome = Resolves,
        buildEnv = \<lparr>projectDirExists = True, exitCode = Some 0, distExists = True, uploadOutcome = None\<rparr>,
        hSetOutcome = Some (Underlying ''The client is closed'')\<rparr>,
       \<lparr>popOutcome = Inr (Some ''def456''), downloadOutcome = Resolves,
        buildEnv = \<lparr>projectDirExists = True, exitCode = Some 0, distExists = True, uploadOutcome = None\<rparr>,
        hSetOutcome = None\<rparr>]
      \<lparr>status = Map.empty, trace = [], ended = None\<rparr>)
    = [BrPop, Received ''abc123'']
   \<and> ended (main_loop
      [\<lparr>popOutcome = Inr (Some ''abc123''), downloadOutcome = Resolves,
        buildEnv = \<lparr>projectDirExists = True, exitCode = Some 0, distExists = True, uploadOutcome = None\<rparr>,
        hSetOutcome = Some (Underlying ''The client is closed'')\<rparr>,
       \<lparr>popOutcome = Inr (Some ''def456''), downloadOutcome = Resolves,
        buildEnv = \<lparr>projectDirExists = True, exitCode = Some 0, distExists = True, uploadOutcome = None\<rparr>,
        hSetOutcome = None\<rparr>]
      \<lparr>status = Map.empty, trace = [], ended = None\<rparr>)
    = Some (Underlying ''The client is closed'')"
  by (simp add: iteration_def tryBlock_def emit_def hSetIssued_def)

text \<open>
  Claim C7. The claim is that every error raised while a job is processed is caught at the
  top of the loop body, logged and followed by the 5 second pause, and that the loop then
  takes the next job. The \<open>try\<close> block catches what the awaited promises reject with. In
  \<open>downloadFile\<close> the listener that turns a stream error into a rejection is registered on
  the write stream; the read stream of \<open>getObject\<close> has none. For a job of two objects,
  when the request for the second object fails after its \<open>headObject\<close> succeeded, no
  promise rejects: the download ends the process with the error of the read stream. The loop
  logs no error and makes no pause, and the job that waits in the queue is never taken.
\<close>

theorem C7_read_error_ends_loop:
  "map_option (\<lambda>run. (d_rejections run, d_uncaught run))
     (downloadS3Folder neverSettled (readErrorOn ''abc123/app.js'' (Underlying ''ECONNRESET'') ''x'') 0
        [pageOf [''abc123/index.html'', ''abc123/app.js'']] ''abc123'')
     = Some ([], [Underlying ''ECONNRESET''])
   \<and> map_option (\<lambda>run. endsAs run (ProcessEnds (Underlying ''ECONNRESET'')))
     (downloadS3Folder neverSettled (readErrorOn ''abc123/app.js'' (Underlying ''ECONNRESET'') ''x'') 0
        [pageOf [''abc123/index.html'', ''abc123/app.js'']] ''abc123'')
     = Some True
   \<and> trace (main_loop
      [\<lparr>popOutcome = Inr (Some ''abc123''), downloadOutcome = ProcessEnds (Underlying ''ECONNRESET''),
        buildEnv = \<lparr>projectDirExists = True, exitCode = Some 0, distExists = True, uploadOutcome = None\<rparr>,
        hSetOutcome = None\<rparr>,
       \<lparr>popOutcome = Inr (Some ''def456''), downloadOutcome = Resolves,
        buildEnv = \<lparr>projectDirExists = True, exitCode = Some 0, distExists = True, uploadOutcome = None\<rparr>,
        hSetOutcome = None\<rparr>]
      \<lparr>status = Map.empty, trace = [], ended = None\<rparr>)
     = [BrPop, Received ''abc123'']
   \<and> ended (main_loop
      [\<lparr>popOutcome = Inr (Some ''abc123''), downloadOutcome = ProcessEnds (Underlying ''ECONNRESET''),
        buildEnv = \<lparr>projectDirExists = True, exitCode = Some 0, distExists = True, uploadOutcome = None\<rparr>,
        hSetOutcome = None\<rparr>,
       \<lparr>popOutcome = Inr (Some ''def456''), downloadOutcome = Resolves,
        buildEnv = \<lparr>projectDirExists = True, exitCode = Some 0, distExists = True, uploadOutcome = None\<rparr>,
        hSetOutcome = None\<rparr>]
      \<lparr>status = Map.empty, trace = [], ended = None\<rparr>)
     = Some (Underlying ''ECONNRESET'')"
proof -
  have a: "map_option (\<lambda>run. (d_rejections run, d_uncaught run))
     (downloadS3Folder neverSettled (readErrorOn ''abc123/app.js'' (Underlying ''ECONNRESET'') ''x'') 0
        [pageOf [''abc123/index.html'', ''abc123/app.js'']] ''abc123'')
     = Some ([], [Underlying ''ECONNRESET''])"
    by code_simp
  have b: "map_option (\<lambda>run. endsAs run (ProcessEnds (Underlying ''ECONNRESET'')))
     (downloadS3Folder neverSettled (readErrorOn ''abc123/app.js'' (Underlying ''ECONNRESET'') ''x'') 0
        [pageOf [''abc123/index.html'', ''abc123/app.js'']] ''abc123'')
     = Some True"
    by code_simp
  from a b show ?thesis
    by (simp add: iteration_def tryBlock_def emit_def)
qed

section \<open>Download direction: the transfer pass\<close>

text \<open>
  An object that does not pass the guard changes nothing; one that passes it adds a call of
  \<open>downloadFile\<close> and a transfer in flight. Within one response nothing is awaited, so after
  its objects have been processed all the transfers started for them are in flight.
\<close>

lemma processObject_skip:
  "\<not> downloadable obj \<Longrightarrow> processObject p d obj bs = bs"
  by (cases bs) (auto simp: processObject_def downloadable_def split: option.splits)

lemma processObject_start:
  assumes "downloadable obj"
  shows "calls (snd (processObject p d obj (b, st))) = calls st @ [(keyOf obj, localFilePath p d (keyOf obj))]"
    and "inFlight (snd (processObject p d obj (b, st))) = inFlight st @ [keyOf obj]"
    and "highWater (snd (processObject p d obj (b, st))) = max (highWater st) (Suc (length (inFlight st)))"
  using assms
  by (auto simp: processObject_def downloadable_def keyOf_def Let_def split: option.splits)

lemma fold_processObject:
  "calls (snd (fold (processObject p d) objs (b, st)))
     = calls st @ map (\<lambda>obj. (keyOf obj, localFilePath p d (keyOf obj))) (filter downloadable objs)
   \<and> inFlight (snd (fold (processObject p d) objs (b, st)))
     = inFlight st @ map keyOf (filter downloadable objs)
   \<and> highWater (snd (fold (processObject p d) objs (b, st)))
     = (if filter downloadable objs = [] then highWater st
        else max (highWater st) (length (inFlight st) + length (filter downloadable objs)))"
proof (induction objs arbitrary: b st)
  case Nil
  show ?case by simp
next
  case (Cons obj objs)
  show ?case
  proof (cases "downloadable obj")
    case False
    then show ?thesis using Cons.IH [of b st] by (simp add: processObject_skip)
  next
    case True
    obtain b' st' where step: "processObject p d obj (b, st) = (b', st')"
      by (cases "processObject p d obj (b, st)")
    from processObject_start [OF True, of p d b st] step
    have f: "calls st' = calls st @ [(keyOf obj, localFilePath p d (keyOf obj))]"
      "inFlight st' = inFlight st @ [keyOf obj]"
      "highWater st' = max (highWater st) (Suc (length (inFlight st)))"
      by simp_all
    from Cons.IH [of b' st'] True step f show ?thesis by (auto simp: max_def)
  qed
qed

lemma processContents_fields:
  "calls (processContents p d objs st)
     = calls st @ map (\<lambda>obj. (keyOf obj, localFilePath p d (keyOf obj))) (filter downloadable objs)
   \<and> inFlight (processContents p d objs st) = inFlight st @ map keyOf (filter downloadable objs)
   \<and> highWater (processContents p d objs st)
     = (if filter downloadable objs = [] then highWater st
        else max (highWater st) (length (inFlight st) + length (filter downloadable objs)))"
proof -
  obtain b' st' where f: "fold (processObject p d) objs ([], st) = (b', st')"
    by (cases "fold (processObject p d) objs ([], st)")
  from fold_processObject [of p d objs "[]" st] f
  show ?thesis by (simp add: processContents_def)
qed

lemma processContents_settledEarly:
  "settledEarly (processContents p d objs st) = settledEarly st"
proof -
  have "settledEarly (snd (fold (processObject p d) objs (b, st))) = settledEarly st" for b
    by (induction objs arbitrary: b st)
       (auto simp: processObject_def Let_def split: option.splits prod.splits)
  from this [of "[]"] show ?thesis
    by (cases "fold (processObject p d) objs ([], st)") (auto simp: processContents_def)
qed

lemma downloadable_pageOf:
  "[] \<notin> set keys \<Longrightarrow> filter downloadable (map (\<lambda>k. \<lparr>Key = Some k, Size = Some 1\<rparr>) keys)
      = map (\<lambda>k. \<lparr>Key = Some k, Size = Some 1\<rparr>) keys"
  by (induction keys) (auto simp: downloadable_def)

lemma calculateS3Stats_single:
  "\<not> IsTruncated r \<Longrightarrow> calculateS3Stats [r] st \<noteq> None"
  by (simp add: Let_def)

text \<open>On a listing that ends with a response that is not truncated, both loops finish.\<close>

lemma calculateS3Stats_returns:
  "responses \<noteq> [] \<Longrightarrow> \<not> IsTruncated (last responses) \<Longrightarrow> calculateS3Stats responses st \<noteq> None"
proof (induction responses arbitrary: st)
  case Nil
  then show ?case by simp
next
  case (Cons r rs)
  show ?case
  proof (cases "IsTruncated r")
    case False
    then show ?thesis by (simp add: Let_def)
  next
    case True
    with Cons.prems have "rs \<noteq> []" and "\<not> IsTruncated (last rs)" by (auto split: if_splits)
    from Cons.IH [OF this] True show ?thesis by (simp add: Let_def)
  qed
qed



text \<open>
  Claim C2. The claim is that at most 5 file transfers are in flight at any time of a sync
  call. In \<open>downloadFromS3\<close> the loop over the objects of a response calls \<open>downloadFile\<close>
  for each of them and only groups the promises in batches of 5; no batch is awaited before
  the next transfer is started. For a response listing six objects of one byte, whatever
  the timing of the transport, six transfers are in flight when the loop is left, above the
  limit of 5.
\<close>

theorem C2_download_exceeds_concurrency_limit:
  "map_option (\<lambda>run. highWater (d_pass run))
     (downloadFromS3 settled fetch now
        [pageOf [''p/a'', ''p/b'', ''p/c'', ''p/d'', ''p/e'', ''p/f'']] ''p'' ''out'') = Some 6
   \<and> map_option (\<lambda>run. inFlight (d_pass run))
     (downloadFromS3 settled fetch now
        [pageOf [''p/a'', ''p/b'', ''p/c'', ''p/d'', ''p/e'', ''p/f'']] ''p'' ''out'')
      = Some [''p/a'', ''p/b'', ''p/c'', ''p/d'', ''p/e'', ''p/f'']
   \<and> concurrencyLimit = 5"
proof -
  let ?keys = "[''p/a'', ''p/b'', ''p/c'', ''p/d'', ''p/e'', ''p/f'']"
  let ?objs = "map (\<lambda>k. \<lparr>Key = Some k, Size = Some 1\<rparr>) ?keys"
  let ?st0 = "\<lparr>calls = [], downloadPromises = [], inFlight = [], highWater = 0, settledEarly = []\<rparr>"
  have d: "filter downloadable ?objs = ?objs"
    by (rule downloadable_pageOf) simp
  have k: "map keyOf ?objs = ?keys" by (simp add: keyOf_def)
  have "calculateS3Stats [pageOf ?keys] (resetStats now) \<noteq> None"
    by (rule calculateS3Stats_single) (simp add: pageOf_def)
  then obtain sts where sts: "calculateS3Stats [pageOf ?keys] (resetStats now) = Some sts" by blast
  have loop: "transferLoop settled 0 ''p'' ''out'' [pageOf ?keys] ?st0
      = Some (processContents ''p'' ''out'' ?objs ?st0)"
    by (simp add: pageOf_def)
  from processContents_fields [of "''p''" "''out''" ?objs ?st0]
  have "inFlight (processContents ''p'' ''out'' ?objs ?st0) = map keyOf (filter downloadable ?objs)"
    and "highWater (processContents ''p'' ''out'' ?objs ?st0)
      = (if filter downloadable ?objs = [] then 0 else max 0 (length (filter downloadable ?objs)))"
    by simp_all
  then have "inFlight (processContents ''p'' ''out'' ?objs ?st0) = ?keys"
    and "highWater (processContents ''p'' ''out'' ?objs ?st0) = 6"
    unfolding d k by simp_all
  with sts loop show ?thesis
    by (simp add: downloadFromS3_def concurrencyLimit_def)
qed

text \<open>
  In the upload direction of the Upload Service every call of \<open>uploadDirectory\<close>, the
  recursive ones included, starts up to 5 chains of its own. For a tree of two directories
  of three files each, six transfers are started without any of them having to settle.
\<close>

lemma upload_starts_above_limit:
  "firstOfChain (events (uploadDirectory allSucceed twoDirectories ''p''))
     = [''p/css/a.css'', ''p/css/b.css'', ''p/css/c.css'', ''p/js/a.js'', ''p/js/b.js'', ''p/js/c.js'']"
  by code_simp

section \<open>Download direction: objects of size 0\<close>

lemma countObject_zero: "Size obj = Some 0 \<Longrightarrow> countObject obj st = st"
  by (simp add: countObject_def)

lemma zero_not_downloadable: "Size obj = Some 0 \<Longrightarrow> \<not> downloadable obj"
  by (simp add: downloadable_def split: option.splits)

lemma fold_filter_unchanged:
  "(\<And>x s. \<not> P x \<Longrightarrow> f x s = s) \<Longrightarrow> fold f (filter P xs) s = fold f xs s"
  by (induction xs arbitrary: s) simp_all

lemma fold_countObject_withoutZero:
  "fold countObject (filter (\<lambda>obj. Size obj \<noteq> Some 0) objs) st = fold countObject objs st"
  by (rule fold_filter_unchanged) (simp add: countObject_zero)

lemma fold_processObject_withoutZero:
  "fold (processObject p d) (filter (\<lambda>obj. Size obj \<noteq> Some 0) objs) bs = fold (processObject p d) objs bs"
  by (rule fold_filter_unchanged) (simp add: processObject_skip zero_not_downloadable)

lemma calculateS3Stats_withoutZero:
  "calculateS3Stats (map withoutZeroByte responses) st = calculateS3Stats responses st"
proof (induction responses arbitrary: st)
  case Nil
  show ?case by simp
next
  case (Cons r rs)
  show ?case
  proof (cases "Contents r")
    case None
    with Cons.IH show ?thesis by (simp add: withoutZeroByte_def Let_def)
  next
    case (Some objs)
    with Cons.IH show ?thesis
      by (simp add: withoutZeroByte_def fold_countObject_withoutZero Let_def)
  qed
qed

lemma processContents_withoutZero:
  "processContents p d (filter (\<lambda>obj. Size obj \<noteq> Some 0) objs) st = processContents p d objs st"
  by (simp add: processContents_def fold_processObject_withoutZero)

lemma transferLoop_withoutZero:
  "transferLoop settled k p d (map withoutZeroByte responses) st = transferLoop settled k p d responses st"
proof (induction responses arbitrary: k st)
  case Nil
  show ?case by simp
next
  case (Cons r rs)
  show ?case
  proof (cases "Contents r")
    case None
    with Cons.IH show ?thesis by (simp add: withoutZeroByte_def Let_def)
  next
    case (Some objs)
    with Cons.IH show ?thesis
      by (simp add: withoutZeroByte_def processContents_withoutZero Let_def)
  qed
qed

text \<open>
  Claim C9. A listed object of size 0 is not counted by the statistics pass and starts no
  transfer in the transfer pass, whatever its key is, so also when it is an ordinary empty
  file: the statistics, the calls of \<open>downloadFile\<close> and hence the local files written are
  those of the listing without its objects of size 0.
\<close>

theorem C9_zero_byte_objects_skipped:
  "countObject (obj\<lparr>Size := Some 0\<rparr>) st = st
   \<and> processObject s3Prefix localDir (obj\<lparr>Size := Some 0\<rparr>) bs = bs
   \<and> calculateS3Stats (map withoutZeroByte responses) st = calculateS3Stats responses st
   \<and> downloadFromS3 settled fetch now (map withoutZeroByte responses) s3Prefix localDir
       = downloadFromS3 settled fetch now responses s3Prefix localDir"
  unfolding downloadFromS3_def calculateS3Stats_withoutZero transferLoop_withoutZero
  by (simp add: countObject_zero processObject_skip zero_not_downloadable)

section \<open>Upload direction: the statistics pass\<close>

text \<open>
  After the statistics pass of the upload, \<open>totalFiles\<close> is the number of files of the
  tree and \<open>totalBytes\<close> the sum of their sizes, at any depth; empty files are counted.
\<close>

lemma countEntry_counts:
  "countEntry e st =
     st\<lparr>totalFiles := totalFiles st + int (length (filesOf dir e)),
        totalBytes := totalBytes st + (\<Sum>(path, bytes) \<leftarrow> filesOf dir e. int (length bytes))\<rparr>"
proof (induction e arbitrary: st dir)
  case (File name content)
  show ?case by simp
next
  case (Directory name entries)
  have "fold countEntry es st =
     st\<lparr>totalFiles := totalFiles st + int (length (concat (map (filesOf d) es))),
        totalBytes := totalBytes st + (\<Sum>(path, bytes) \<leftarrow> concat (map (filesOf d) es). int (length bytes))\<rparr>"
    if "set es \<subseteq> set entries" for es st d
    using that
  proof (induction es arbitrary: st)
    case Nil
    show ?case by simp
  next
    case (Cons x xs)
    from Cons.prems have "x \<in> set entries" and "set xs \<subseteq> set entries" by simp_all
    with Cons.IH [of "countEntry x st"] Directory [of x st d] show ?case
      by (simp add: algebra_simps)
  qed
  then show ?case by simp
qed

lemma uploadStatisticsPass_counts:
  "uploadStatisticsPass now entries =
     \<lparr>totalFiles = int (length (treeFiles dir entries)), filesTransferred = 0,
      totalBytes = (\<Sum>(path, bytes) \<leftarrow> treeFiles dir entries. int (length bytes)),
      bytesTransferred = 0, startTime = now, lastLogTime = now\<rparr>"
proof -
  have "fold countEntry es st =
     st\<lparr>totalFiles := totalFiles st + int (length (concat (map (filesOf dir) es))),
        totalBytes := totalBytes st + (\<Sum>(path, bytes) \<leftarrow> concat (map (filesOf dir) es). int (length bytes))\<rparr>"
    for es st
  proof (induction es arbitrary: st)
    case Nil
    show ?case by simp
  next
    case (Cons x xs)
    from Cons.IH [of "countEntry x st"] countEntry_counts [of x st dir] show ?case
      by (simp add: algebra_simps)
  qed
  then show ?thesis
    by (simp add: uploadStatisticsPass_def calculateDirectoryStats_def treeFiles_def resetStats_def)
qed

section \<open>Download direction: the statistics pass\<close>

text \<open>
  After the statistics pass of the download, \<open>totalFiles\<close> is the number of listed objects
  of positive size and \<open>totalBytes\<close> the sum of their sizes.
\<close>

lemma fold_countObject_counts:
  "fold countObject objs st =
     st\<lparr>totalFiles := totalFiles st + int (length (filter (\<lambda>obj. sizeOf obj > 0) objs)),
        totalBytes := totalBytes st + (\<Sum>obj \<leftarrow> filter (\<lambda>obj. sizeOf obj > 0) objs. sizeOf obj)\<rparr>"
proof (induction objs arbitrary: st)
  case Nil
  show ?case by simp
next
  case (Cons obj objs)
  have step: "countObject obj st =
      (if sizeOf obj > 0
       then st\<lparr>totalFiles := totalFiles st + 1, totalBytes := totalBytes st + sizeOf obj\<rparr>
       else st)"
    by (cases "Size obj") (simp_all add: countObject_def sizeOf_def)
  show ?case
  proof (cases "sizeOf obj > 0")
    case True
    with step Cons.IH [of "countObject obj st"] show ?thesis by simp
  next
    case False
    with step Cons.IH [of st] show ?thesis by simp
  qed
qed

lemma calculateS3Stats_counts:
  "calculateS3Stats responses st = Some st' \<Longrightarrow>
     st' = st\<lparr>totalFiles := totalFiles st
                   + int (length (filter (\<lambda>obj. sizeOf obj > 0) (listedObjects responses))),
              totalBytes := totalBytes st
                   + (\<Sum>obj \<leftarrow> filter (\<lambda>obj. sizeOf obj > 0) (listedObjects responses). sizeOf obj)\<rparr>"
proof (induction responses arbitrary: st)
  case Nil
  then show ?case by simp
next
  case (Cons r rs)
  let ?objs = "case Contents r of None \<Rightarrow> [] | Some objs \<Rightarrow> objs"
  let ?st1 = "fold countObject ?objs st"
  have step: "(case Contents r of None \<Rightarrow> st | Some objs \<Rightarrow> fold countObject objs st) = ?st1"
    by (cases "Contents r") simp_all
  show ?case
  proof (cases "IsTruncated r")
    case True
    with Cons.prems step have "calculateS3Stats rs ?st1 = Some st'" by (simp add: Let_def)
    from Cons.IH [OF this] True show ?thesis
      by (simp add: fold_countObject_counts [of ?objs st] algebra_simps)
  next
    case False
    with Cons.prems step have "st' = ?st1" by (simp add: Let_def)
    with False show ?thesis
      by (simp add: fold_countObject_counts [of ?objs st])
  qed
qed

section \<open>Upload direction: the transfer pass\<close>

lemma concurrencyLimit_pos: "0 < concurrencyLimit"
  by (simp add: concurrencyLimit_def)

lemma visits_step:
  "index < n \<Longrightarrow> visits n index j = (j = index \<or> visits n (index + concurrencyLimit) j)"
proof -
  assume a: "index < n"
  have c: "0 < concurrencyLimit" by (rule concurrencyLimit_pos)
  show ?thesis
  proof
    assume v: "visits n index j"
    show "j = index \<or> visits n (index + concurrencyLimit) j"
    proof (cases "j = index")
      case True then show ?thesis by simp
    next
      case False
      with v have lt: "index < j" and m: "(j - index) mod concurrencyLimit = 0" and jn: "j < n"
        by (auto simp: visits_def)
      from lt have "0 < j - index" by simp
      with m c have ge: "concurrencyLimit \<le> j - index"
        by (metis mod_less not_le not_less_zero)
      with m have "(j - index - concurrencyLimit) mod concurrencyLimit = 0"
        by (simp add: le_mod_geq)
      moreover from ge lt have "index + concurrencyLimit \<le> j" by simp
      ultimately have "visits n (index + concurrencyLimit) j"
        using jn by (simp add: visits_def)
      then show ?thesis by simp
    qed
  next
    assume "j = index \<or> visits n (index + concurrencyLimit) j"
    then show "visits n index j"
    proof
      assume "j = index" with a show ?thesis by (simp add: visits_def)
    next
      assume v: "visits n (index + concurrencyLimit) j"
      then have ge: "index + concurrencyLimit \<le> j" and jn: "j < n"
        and m: "(j - (index + concurrencyLimit)) mod concurrencyLimit = 0"
        by (auto simp: visits_def)
      from ge have "j - index = (j - (index + concurrencyLimit)) + concurrencyLimit" by simp
      with m have "(j - index) mod concurrencyLimit = 0" by (metis mod_add_self2)
      with ge jn show ?thesis by (simp add: visits_def)
    qed
  qed
qed

lemma visits_past: "n \<le> index \<Longrightarrow> \<not> visits n index j"
  by (simp add: visits_def)

lemma visits_cover:
  "j < n \<Longrightarrow> \<exists>i < min concurrencyLimit n. visits n i j"
proof -
  assume jn: "j < n"
  have c: "0 < concurrencyLimit" by (rule concurrencyLimit_pos)
  let ?i = "j mod concurrencyLimit"
  from c have "?i < concurrencyLimit" by simp
  moreover have le: "?i \<le> j" by simp
  moreover from le jn have "?i < n" by (rule le_less_trans)
  moreover have "(j - ?i) mod concurrencyLimit = 0"
    by (simp add: minus_mod_eq_mult_div)
  ultimately have "?i < min concurrencyLimit n \<and> visits n ?i j"
    using jn by (simp add: visits_def)
  then show ?thesis by blast
qed

lemma fails_Un: "fails put (A \<union> B) = fails put A \<union> fails put B"
  by (auto simp: fails_def)

lemma oks_Un: "oks put (A \<union> B) = oks put A \<union> oks put B"
  by (auto simp: oks_def)

lemma fails_UN: "fails put (\<Union>i\<in>I. A i) = (\<Union>i\<in>I. fails put (A i))"
  by (auto simp: fails_def)

lemma oks_UN: "oks put (\<Union>i\<in>I. A i) = (\<Union>i\<in>I. oks put (A i))"
  by (auto simp: oks_def)

lemma failedKeys_Un: "failedKeys put (A \<union> B) = failedKeys put A \<union> failedKeys put B"
  by (auto simp: failedKeys_def)

lemma failedKeys_UN: "failedKeys put (\<Union>i\<in>I. A i) = (\<Union>i\<in>I. failedKeys put (A i))"
  by (auto simp: failedKeys_def)

lemma fileErrors_append: "fileErrors (xs @ ys) = fileErrors xs @ fileErrors ys"
  by (simp add: fileErrors_def)

lemma fileErrors_Nested: "fileErrors [Nested css] = concat (map fileErrors css)"
  by (simp add: fileErrors_def [abs_def])

lemma describes_empty: "describes put \<lparr>rejections = [], events = [], stored = []\<rparr> {}"
  by (simp add: describes_def fails_def oks_def failedKeys_def fileErrors_def)

lemma describes_uploadFile: "describes put (uploadFile put key content) {(key, content)}"
  by (cases "put key")
     (auto simp: describes_def uploadFile_def fails_def oks_def failedKeys_def fileErrors_def)

lemma describes_tryFinally:
  assumes "describes put r1 C1" and "describes put r2 C2"
  shows "describes put (tryFinally r1 r2) (C1 \<union> C2)"
  using assms unfolding describes_def tryFinally_def fails_Un oks_Un failedKeys_Un
  by (auto simp: fileErrors_append)

lemma UN_set_nth: "(\<Union>x \<in> set xs. f x) = (\<Union>i \<in> {..<length xs}. f (xs ! i))"
proof
  show "(\<Union>x \<in> set xs. f x) \<subseteq> (\<Union>i \<in> {..<length xs}. f (xs ! i))"
  proof
    fix y assume "y \<in> (\<Union>x \<in> set xs. f x)"
    then obtain x where "x \<in> set xs" and y: "y \<in> f x" by blast
    then obtain i where "i < length xs" and "xs ! i = x" by (auto simp: in_set_conv_nth)
    with y show "y \<in> (\<Union>i \<in> {..<length xs}. f (xs ! i))" by blast
  qed
next
  show "(\<Union>i \<in> {..<length xs}. f (xs ! i)) \<subseteq> (\<Union>x \<in> set xs. f x)"
    by (auto intro: nth_mem)
qed

lemma describes_promiseAll:
  assumes "\<And>i. i < length rs \<Longrightarrow> describes put (rs ! i) (C i)"
  shows "describes put (promiseAll rs) (\<Union>i \<in> {..<length rs}. C i)"
proof -
  have "set (rejections (promiseAll rs)) = (\<Union>r \<in> set rs. set (rejections r))"
    by (simp add: promiseAll_def)
  then have r: "set (rejections (promiseAll rs)) = (\<Union>i \<in> {..<length rs}. set (rejections (rs ! i)))"
    by (simp only: UN_set_nth)
  have "set (stored (promiseAll rs)) = (\<Union>r \<in> set rs. set (stored r))"
    by (simp add: promiseAll_def)
  then have s: "set (stored (promiseAll rs)) = (\<Union>i \<in> {..<length rs}. set (stored (rs ! i)))"
    by (simp only: UN_set_nth)
  have "rejections (promiseAll rs) = [] \<longleftrightarrow> (\<forall>r \<in> set rs. rejections r = [])"
    by (simp add: promiseAll_def)
  then have e: "rejections (promiseAll rs) = [] \<longleftrightarrow> (\<forall>i < length rs. rejections (rs ! i) = [])"
    by (simp only: all_set_conv_all_nth)
  have "set (fileErrors (events (promiseAll rs))) = (\<Union>r \<in> set rs. set (fileErrors (events r)))"
    by (simp add: promiseAll_def fileErrors_Nested)
  then have l: "set (fileErrors (events (promiseAll rs)))
      = (\<Union>i \<in> {..<length rs}. set (fileErrors (events (rs ! i))))"
    by (simp only: UN_set_nth)
  from assms have a1: "\<And>i. i < length rs \<Longrightarrow> set (rejections (rs ! i)) \<subseteq> fails put (C i)"
    and a2: "\<And>i. i < length rs \<Longrightarrow> (rejections (rs ! i) = []) = (fails put (C i) = {})"
    and a3: "\<And>i. i < length rs \<Longrightarrow> set (stored (rs ! i)) = oks put (C i)"
    and a4: "\<And>i. i < length rs \<Longrightarrow> set (fileErrors (events (rs ! i))) = failedKeys put (C i)"
    by (simp_all add: describes_def)
  have "set (rejections (promiseAll rs)) \<subseteq> fails put (\<Union>i \<in> {..<length rs}. C i)"
    unfolding r fails_UN using a1 by fastforce
  moreover have "(rejections (promiseAll rs) = []) = (fails put (\<Union>i \<in> {..<length rs}. C i) = {})"
    unfolding e fails_UN using a2 by auto
  moreover have "set (stored (promiseAll rs)) = oks put (\<Union>i \<in> {..<length rs}. C i)"
    unfolding s oks_UN using a3 by auto
  moreover have "set (fileErrors (events (promiseAll rs))) = failedKeys put (\<Union>i \<in> {..<length rs}. C i)"
    unfolding l failedKeys_UN using a4 by auto
  ultimately show ?thesis by (simp add: describes_def)
qed

lemma chainObjects_past: "length entries \<le> index \<Longrightarrow> chainObjects s3Prefix entries index = {}"
  by (simp add: chainObjects_def visits_past)

lemma chainObjects_step:
  "index < length entries \<Longrightarrow>
     chainObjects s3Prefix entries index
       = set (objectsOf s3Prefix (entries ! index))
         \<union> chainObjects s3Prefix entries (index + concurrencyLimit)"
  by (auto simp: chainObjects_def visits_step)

lemma treeObjects_chains:
  "set (treeObjects s3Prefix entries)
     = (\<Union>i \<in> {..<min concurrencyLimit (length entries)}. chainObjects s3Prefix entries i)"
proof
  show "set (treeObjects s3Prefix entries)
     \<subseteq> (\<Union>i \<in> {..<min concurrencyLimit (length entries)}. chainObjects s3Prefix entries i)"
  proof
    fix x assume "x \<in> set (treeObjects s3Prefix entries)"
    then have "x \<in> (\<Union>e \<in> set entries. set (objectsOf s3Prefix e))"
      by (simp add: treeObjects_def)
    then have "x \<in> (\<Union>j \<in> {..<length entries}. set (objectsOf s3Prefix (entries ! j)))"
      by (simp only: UN_set_nth)
    then obtain j where j: "j < length entries" and x: "x \<in> set (objectsOf s3Prefix (entries ! j))"
      by blast
    from visits_cover [OF j] obtain i where "i < min concurrencyLimit (length entries)"
      and "visits (length entries) i j" by blast
    with x show "x \<in> (\<Union>i \<in> {..<min concurrencyLimit (length entries)}. chainObjects s3Prefix entries i)"
      by (auto simp: chainObjects_def)
  qed
next
  show "(\<Union>i \<in> {..<min concurrencyLimit (length entries)}. chainObjects s3Prefix entries i)
     \<subseteq> set (treeObjects s3Prefix entries)"
  proof
    fix x assume "x \<in> (\<Union>i \<in> {..<min concurrencyLimit (length entries)}. chainObjects s3Prefix entries i)"
    then obtain j where "j < length entries" and "x \<in> set (objectsOf s3Prefix (entries ! j))"
      by (auto simp: chainObjects_def visits_def)
    then have "x \<in> (\<Union>j \<in> {..<length entries}. set (objectsOf s3Prefix (entries ! j)))" by blast
    then have "x \<in> (\<Union>e \<in> set entries. set (objectsOf s3Prefix e))"
      by (simp only: UN_set_nth)
    then show "x \<in> set (treeObjects s3Prefix entries)" by (simp add: treeObjects_def)
  qed
qed

lemma describes_upload:
  "describes put (processEntry put s3Prefix entries index) (chainObjects s3Prefix entries index)"
  "describes put (uploadDirectory put entries s3Prefix) (set (treeObjects s3Prefix entries))"
proof (induction put s3Prefix entries index and put entries s3Prefix
       rule: processEntry_uploadDirectory.induct)
  case (1 put s3Prefix entries index)
  show ?case
  proof (cases "length entries \<le> index")
    case True
    then show ?thesis
      by (subst processEntry.simps) (simp add: chainObjects_past describes_empty)
  next
    case False
    then have lt: "index < length entries" by simp
    let ?r1 = "case entries ! index of
                 Directory name sub \<Rightarrow> uploadDirectory put sub (entryS3Key s3Prefix name)
               | File name content \<Rightarrow> uploadFile put (entryS3Key s3Prefix name) content"
    have d1: "describes put ?r1 (set (objectsOf s3Prefix (entries ! index)))"
    proof (cases "entries ! index")
      case (File name content)
      then show ?thesis by (simp add: describes_uploadFile)
    next
      case (Directory name sub)
      from "1.IH"(1) [OF False Directory]
      have "describes put (uploadDirectory put sub (entryS3Key s3Prefix name))
              (set (treeObjects (entryS3Key s3Prefix name) sub))" .
      with Directory show ?thesis by (simp add: treeObjects_def)
    qed
    have d2: "describes put (processEntry put s3Prefix entries (index + concurrencyLimit))
                (chainObjects s3Prefix entries (index + concurrencyLimit))"
      by (rule "1.IH"(2) [OF False])
    have "processEntry put s3Prefix entries index
            = tryFinally ?r1 (processEntry put s3Prefix entries (index + concurrencyLimit))"
      using False by (subst processEntry.simps) simp
    with describes_tryFinally [OF d1 d2] chainObjects_step [OF lt, of s3Prefix]
    show ?thesis by simp
  qed
next
  case (2 put entries s3Prefix)
  let ?n = "min concurrencyLimit (length entries)"
  let ?rs = "map (processEntry put s3Prefix entries) [0 ..< ?n]"
  have len: "length ?rs = ?n" by simp
  have "\<And>i. i < length ?rs \<Longrightarrow> describes put (?rs ! i) (chainObjects s3Prefix entries i)"
  proof -
    fix i assume "i < length ?rs"
    then have i: "i < ?n" by simp
    then have "i \<in> set [0 ..< ?n]" by simp
    from "2.IH" [OF this] have "describes put (processEntry put s3Prefix entries i) (chainObjects s3Prefix entries i)" .
    moreover from i have "?rs ! i = processEntry put s3Prefix entries i" by simp
    ultimately show "describes put (?rs ! i) (chainObjects s3Prefix entries i)" by simp
  qed
  from describes_promiseAll [of ?rs put "chainObjects s3Prefix entries", OF this]
  have "describes put (promiseAll ?rs) (\<Union>i \<in> {..<?n}. chainObjects s3Prefix entries i)"
    unfolding len by simp
  then show ?case
    unfolding treeObjects_chains by (subst uploadDirectory.simps) simp
qed

section \<open>Failing transfers\<close>





text \<open>
  A listing of one page is processed without a second \<open>await listObjectsV2\<close>: no call of
  \<open>downloadFile\<close> can settle before \<open>await Promise.all(downloadPromises)\<close>.
\<close>

lemma single_page_nothing_settles_early:
  assumes "\<not> IsTruncated response"
    and "downloadFromS3 settled fetch now (response # responses) p d = Some run"
  shows "settledEarly (d_pass run) = []"
proof -
  let ?st0 = "\<lparr>calls = [], downloadPromises = [], inFlight = [], highWater = 0, settledEarly = []\<rparr>"
  from assms(2) obtain pass where
    loop: "transferLoop settled 0 p d (response # responses) ?st0 = Some pass"
    and p: "d_pass run = pass"
    by (auto simp: downloadFromS3_def split: option.splits)
  from loop assms(1) have "settledEarly pass = []"
    by (auto simp: Let_def processContents_settledEarly split: option.splits)
  with p show ?thesis by simp
qed




section \<open>Job submission\<close>

text \<open>
  A failure of the clone or of the directory upload is answered with status 500 and the
  error, and nothing is pushed; when both succeed, the identifier is pushed once and the
  answer is the identifier with the elapsed time.
\<close>

lemma uploadController_clone_fails:
  "cloneOutcome env = Some e \<Longrightarrow>
     uploadController env repoUrl queue =
       \<lparr>responseSent = Failure500 e (clockAtEnd env - clockOnEntry env),
        collaboratorCalls = [Clone repoUrl (''output/'' @ uuid env)],
        buildQueue = queue\<rparr>"
  by (simp add: uploadController_def)

lemma uploadController_upload_fails:
  "cloneOutcome env = None \<Longrightarrow> directoryUploadOutcome env = Some e \<Longrightarrow>
     uploadController env repoUrl queue =
       \<lparr>responseSent = Failure500 e (clockAtEnd env - clockOnEntry env),
        collaboratorCalls = [Clone repoUrl (''output/'' @ uuid env),
                             UploadDirectory (posix_join [cwd env, ''output/'' @ uuid env]) (uuid env)],
        buildQueue = queue\<rparr>"
  by (simp add: uploadController_def Let_def)

lemma uploadController_succeeds:
  "cloneOutcome env = None \<Longrightarrow> directoryUploadOutcome env = None \<Longrightarrow> pushOutcome env = None \<Longrightarrow>
     uploadController env repoUrl queue =
       \<lparr>responseSent = Success (uuid env) (clockAtEnd env - clockOnEntry env),
        collaboratorCalls = [Clone repoUrl (''output/'' @ uuid env),
                             UploadDirectory (posix_join [cwd env, ''output/'' @ uuid env]) (uuid env),
                             LPush ''build-queue'' (uuid env)],
        buildQueue = uuid env # queue\<rparr>"
  by (simp add: uploadController_def Let_def)

text \<open>
  Claim C6. The claim is that a failure of any step of the submission, the push onto the
  work queue included, is answered with a failure response. The push is not awaited: when
  the clone and the upload succeed and the push fails, the answer is the success response
  with the identifier, and the identifier is not on the queue.
\<close>

theorem C6_push_failure_answered_with_success:
  "uploadController
     \<lparr>uuid = ''0b5c9e7e-6f0a-4c1e-9d53-2a7c1f4e8b11'', cwd = ''/srv/upload'',
      cloneOutcome = None, directoryUploadOutcome = None,
      pushOutcome = Some (Underlying ''ECONNREFUSED''), clockOnEntry = 1000, clockAtEnd = 4500\<rparr>
     ''https://example/repo.git'' []
   = \<lparr>responseSent = Success ''0b5c9e7e-6f0a-4c1e-9d53-2a7c1f4e8b11'' 3500,
      collaboratorCalls =
        [Clone ''https://example/repo.git'' ''output/0b5c9e7e-6f0a-4c1e-9d53-2a7c1f4e8b11'',
         UploadDirectory ''/srv/upload/output/0b5c9e7e-6f0a-4c1e-9d53-2a7c1f4e8b11''
           ''0b5c9e7e-6f0a-4c1e-9d53-2a7c1f4e8b11'',
         LPush ''build-queue'' ''0b5c9e7e-6f0a-4c1e-9d53-2a7c1f4e8b11''],
      buildQueue = []\<rparr>"
  by code_simp

section \<open>Published keys and served keys\<close>

lemma split_slash_nonempty: "split_slash s \<noteq> []"
  by (induction s) (auto split: list.splits)

lemma split_slash_plain: "CHR ''/'' \<notin> set s \<Longrightarrow> split_slash s = [s]"
  by (induction s) auto

lemma split_slash_append:
  "CHR ''/'' \<notin> set s \<Longrightarrow> split_slash (s @ CHR ''/'' # rest) = s # split_slash rest"
  by (induction s) auto

lemma split_join:
  "segs \<noteq> [] \<Longrightarrow> \<forall>s \<in> set segs. CHR ''/'' \<notin> set s \<Longrightarrow> split_slash (join_slash segs) = segs"
proof (induction segs rule: join_slash.induct)
  case 1
  then show ?case by simp
next
  case (2 s)
  then show ?case by (simp add: split_slash_plain)
next
  case (3 s t ss)
  then have "split_slash (join_slash (t # ss)) = t # ss" by simp
  with 3 show ?case by (simp add: split_slash_append)
qed

lemma foldl_normalizeSegment_plain:
  "\<forall>s \<in> set segs. plainName s \<Longrightarrow> foldl (normalizeSegment a) res segs = res @ segs"
  by (induction segs arbitrary: res) (auto simp: normalizeSegment_def plainName_def)

lemma join_slash_append:
  "xs \<noteq> [] \<Longrightarrow> ys \<noteq> [] \<Longrightarrow> join_slash (xs @ ys) = join_slash xs @ CHR ''/'' # join_slash ys"
proof (induction xs rule: join_slash.induct)
  case 1
  then show ?case by simp
next
  case (2 s)
  then show ?case by (cases ys) simp_all
next
  case (3 s t ss)
  then show ?case by simp
qed

lemma join_slash_hd:
  "segs \<noteq> [] \<Longrightarrow> hd segs \<noteq> [] \<Longrightarrow> join_slash segs \<noteq> [] \<and> hd (join_slash segs) = hd (hd segs)"
  by (induction segs rule: join_slash.induct) auto

lemma join_slash_nonempty:
  "segs \<noteq> [] \<Longrightarrow> last segs \<noteq> [] \<Longrightarrow> join_slash segs \<noteq> []"
  by (induction segs rule: join_slash.induct) auto

lemma join_slash_last:
  "segs \<noteq> [] \<Longrightarrow> last segs \<noteq> [] \<Longrightarrow> last (join_slash segs) = last (last segs)"
proof (induction segs rule: join_slash.induct)
  case 1
  then show ?case by simp
next
  case (2 s)
  then show ?case by simp
next
  case (3 s t ss)
  then have l: "last (t # ss) \<noteq> []" by simp
  with 3 have "last (join_slash (t # ss)) = last (last (t # ss))" by simp
  moreover from join_slash_nonempty [OF _ l] have "join_slash (t # ss) \<noteq> []" by simp
  ultimately show ?case by simp
qed

lemma normalize_plain:
  assumes ne: "segs \<noteq> []" and pl: "\<forall>s \<in> set segs. plainName s"
  shows "posix_normalize (join_slash segs) = join_slash segs"
proof -
  from pl have ns: "\<forall>s \<in> set segs. CHR ''/'' \<notin> set s" by (simp add: plainName_def)
  from ne pl have h: "hd segs \<noteq> []" "CHR ''/'' \<notin> set (hd segs)"
    and l: "last segs \<noteq> []" "CHR ''/'' \<notin> set (last segs)"
    by (simp_all add: plainName_def)
  from join_slash_hd [OF ne h(1)] have jne: "join_slash segs \<noteq> []"
    and hd: "hd (join_slash segs) = hd (hd segs)" by simp_all
  from h have "hd (hd segs) \<in> set (hd segs)" by simp
  with h(2) hd have nabs: "hd (join_slash segs) \<noteq> CHR ''/''" by metis
  from l have "last (last segs) \<in> set (last segs)" by simp
  with l(2) join_slash_last [OF ne l(1)] have ntr: "last (join_slash segs) \<noteq> CHR ''/''" by metis
  have "normalizeString (join_slash segs) True = join_slash segs"
    by (simp add: normalizeString_def split_join [OF ne ns] foldl_normalizeSegment_plain [OF pl])
  with jne nabs ntr show ?thesis
    by (simp add: posix_normalize_def Let_def)
qed

lemma cleanPath_nonempty: "cleanPath p \<Longrightarrow> p \<noteq> []"
proof -
  assume "cleanPath p"
  then obtain segs where ne: "segs \<noteq> []" and pl: "\<forall>s \<in> set segs. plainName s" and p: "p = join_slash segs"
    by (auto simp: cleanPath_def)
  from ne pl have "hd segs \<noteq> []" by (simp add: plainName_def)
  from join_slash_hd [OF ne this] p show ?thesis by simp
qed

lemma posix_join_clean:
  assumes "cleanPath a" and "cleanPath b"
  shows "posix_join [a, b] = a @ CHR ''/'' # b" and "cleanPath (a @ CHR ''/'' # b)"
proof -
  from assms(1) obtain xs where xs: "xs \<noteq> []" "\<forall>s \<in> set xs. plainName s" "a = join_slash xs"
    by (auto simp: cleanPath_def)
  from assms(2) obtain ys where ys: "ys \<noteq> []" "\<forall>s \<in> set ys. plainName s" "b = join_slash ys"
    by (auto simp: cleanPath_def)
  have j: "join_slash (xs @ ys) = a @ CHR ''/'' # b"
    using xs ys by (simp add: join_slash_append)
  from xs ys have pl: "xs @ ys \<noteq> []" "\<forall>s \<in> set (xs @ ys). plainName s" by auto
  from pl j show "cleanPath (a @ CHR ''/'' # b)" unfolding cleanPath_def by metis
  from assms have "a \<noteq> []" "b \<noteq> []" by (simp_all add: cleanPath_nonempty)
  then have "posix_join [a, b] = posix_normalize (a @ CHR ''/'' # b)"
    by (simp add: posix_join_def)
  also have "\<dots> = a @ CHR ''/'' # b"
    using normalize_plain [OF pl] j by simp
  finally show "posix_join [a, b] = a @ CHR ''/'' # b" .
qed

text \<open>
  An identifier without slashes and dots is a plain name: a UUID consists of hexadecimal
  digits and dashes, and in the deployment identifier \<open>:\<close> and \<open>.\<close> have been replaced.
\<close>

lemma plainName_identifier:
  "ident \<noteq> [] \<Longrightarrow> CHR ''/'' \<notin> set ident \<Longrightarrow> CHR ''.'' \<notin> set ident \<Longrightarrow> plainName ident"
  by (auto simp: plainName_def)

lemma cleanPath_plain: "plainName name \<Longrightarrow> cleanPath name"
  unfolding cleanPath_def by (rule exI [of _ "[name]"]) simp

lemma posix_join_empty_left:
  assumes "cleanPath b"
  shows "posix_join [[], b] = b"
proof -
  from assms obtain ys where ys: "ys \<noteq> []" "\<forall>s \<in> set ys. plainName s" "b = join_slash ys"
    by (auto simp: cleanPath_def)
  from assms have "b \<noteq> []" by (rule cleanPath_nonempty)
  then have "posix_join [[], b] = posix_normalize b" by (simp add: posix_join_def)
  with normalize_plain [OF ys(1) ys(2)] ys(3) show ?thesis by simp
qed

lemma entryRelPath_clean:
  assumes "relativePath = [] \<or> cleanPath relativePath" and "plainName name"
  shows "cleanPath (posix_join [relativePath, name])"
proof -
  from assms(2) have n: "cleanPath name" by (rule cleanPath_plain)
  from assms(1) show ?thesis
  proof
    assume "relativePath = []"
    with posix_join_empty_left [OF n] n show ?thesis by simp
  next
    assume r: "cleanPath relativePath"
    from posix_join_clean [OF r n] show ?thesis by simp
  qed
qed

lemma replaceBackslashes_append:
  "replaceBackslashes (a @ b) = replaceBackslashes a @ replaceBackslashes b"
  by (simp add: replaceBackslashes_def)

lemma processDirectoryEntry_keys:
  assumes "cleanPath s3Prefix"
  shows "plainNames e \<Longrightarrow> relativePath = [] \<or> cleanPath relativePath \<Longrightarrow>
     \<forall>key \<in> set (processDirectoryEntry s3Prefix relativePath e).
       \<exists>rel. key = replaceBackslashes s3Prefix @ replaceBackslashes (CHR ''/'' # rel)"
proof (induction e arbitrary: relativePath)
  case (File name content)
  then have "cleanPath (posix_join [relativePath, name])" by (simp add: entryRelPath_clean)
  from posix_join_clean(1) [OF assms this]
  have "replaceBackslashes (posix_join [s3Prefix, posix_join [relativePath, name]])
     = replaceBackslashes s3Prefix @ replaceBackslashes (CHR ''/'' # posix_join [relativePath, name])"
    by (simp add: replaceBackslashes_append)
  then show ?case by auto
next
  case (Directory name entries)
  from Directory.prems have c: "cleanPath (posix_join [relativePath, name])"
    by (simp add: entryRelPath_clean)
  show ?case
  proof
    fix key assume "key \<in> set (processDirectoryEntry s3Prefix relativePath (Directory name entries))"
    then obtain x where x: "x \<in> set entries"
      and k: "key \<in> set (processDirectoryEntry s3Prefix (posix_join [relativePath, name]) x)"
      by auto
    from Directory.prems(1) x have "plainNames x" by (simp add: list_all_iff)
    from Directory.IH [OF x this, of "posix_join [relativePath, name]"] c k
    show "\<exists>rel. key = replaceBackslashes s3Prefix @ replaceBackslashes (CHR ''/'' # rel)" by blast
  qed
qed

lemma distS3Prefix_clean:
  assumes "plainName ident" and "case deploymentId of None \<Rightarrow> True | Some d \<Rightarrow> d = [] \<or> plainName d"
  shows "cleanPath (distS3Prefix ident deploymentId)"
    and "prefix ''deployments/'' (replaceBackslashes (distS3Prefix ident deploymentId) @ replaceBackslashes (CHR ''/'' # rel))"
proof -
  have dp: "plainName ''deployments''" by (simp add: plainName_def)
  have two: "cleanPath (''deployments/'' @ ident)"
    unfolding cleanPath_def using assms(1) dp
    by (intro exI [of _ "[''deployments'', ident]"]) simp
  have three: "cleanPath (''deployments/'' @ ident @ ''/'' @ d)" if "plainName d" for d
    unfolding cleanPath_def using assms(1) dp that
    by (intro exI [of _ "[''deployments'', ident, d]"]) simp
  from assms(2) two three show "cleanPath (distS3Prefix ident deploymentId)"
    by (auto simp: distS3Prefix_def split: option.splits)
  have "\<exists>rest. distS3Prefix ident deploymentId = ''deployments/'' @ rest"
    by (auto simp: distS3Prefix_def split: option.splits)
  then obtain rest where "distS3Prefix ident deploymentId = ''deployments/'' @ rest" by blast
  then have "replaceBackslashes (distS3Prefix ident deploymentId) = ''deployments/'' @ replaceBackslashes rest"
    by (simp add: replaceBackslashes_def)
  then show "prefix ''deployments/'' (replaceBackslashes (distS3Prefix ident deploymentId) @ replaceBackslashes (CHR ''/'' # rel))"
    by (simp add: prefix_def)
qed

text \<open>
  Claim C10, as amended. For a job identifier and a deployment identifier that are plain names (as a
  UUID and the timestamp-derived identifier are) and a dist directory as \<open>readdir\<close> shows
  it, every key under which the build output is published begins with \<open>deployments/\<close>;
  for every host and request path the key that the content server reads begins with
  \<open>dist/\<close>; so the key read is never one of the keys published.
\<close>

theorem C10_published_keys_never_served:
  assumes "plainName ident"
    and "case deploymentId of None \<Rightarrow> True | Some d \<Rightarrow> d = [] \<or> plainName d"
    and "case distDir of None \<Rightarrow> True | Some entries \<Rightarrow> list_all plainNames entries"
  shows "(\<forall>key \<in> set (uploadDistFolder_keys ident deploymentId distDir). prefix ''deployments/'' key)
     \<and> prefix ''dist/'' (serveFileKey host filePath)
     \<and> serveFileKey host filePath \<notin> set (uploadDistFolder_keys ident deploymentId distDir)"
proof -
  have pub: "prefix ''deployments/'' key"
    if "key \<in> set (uploadDistFolder_keys ident deploymentId distDir)" for key
  proof -
    from that obtain entries x where d: "distDir = Some entries" and x: "x \<in> set entries"
      and k: "key \<in> set (processDirectoryEntry (distS3Prefix ident deploymentId) [] x)"
      by (auto simp: uploadDistFolder_keys_def processDirectory_def split: option.splits)
    from assms(3) d x have "plainNames x" by (simp add: list_all_iff)
    from processDirectoryEntry_keys [OF distS3Prefix_clean(1) [OF assms(1,2)] this, of "[]"] k
    obtain rel where "key = replaceBackslashes (distS3Prefix ident deploymentId) @ replaceBackslashes (CHR ''/'' # rel)"
      by blast
    with distS3Prefix_clean(2) [OF assms(1,2)] show ?thesis by simp
  qed
  have srv: "prefix ''dist/'' (serveFileKey host filePath)"
    by (simp add: serveFileKey_def prefix_def)
  have "\<not> prefix ''deployments/'' (serveFileKey host filePath)"
    by (simp add: serveFileKey_def prefix_def)
  with pub have "serveFileKey host filePath \<notin> set (uploadDistFolder_keys ident deploymentId distDir)"
    by blast
  with pub srv show ?thesis by blast
qed

theorem C10_published_keys_never_served_witness:
  "plainName ''0b5c9e7e-6f0a-4c1e-9d53-2a7c1f4e8b11''
   \<and> plainName ''2024-05-01T10-20-30-000Z''
   \<and> list_all plainNames [File ''index.html'' ''<html>'', Directory ''assets'' [File ''app.js'' ''x'']]
   \<and> uploadDistFolder_keys ''0b5c9e7e-6f0a-4c1e-9d53-2a7c1f4e8b11'' (Some ''2024-05-01T10-20-30-000Z'')
         (Some [File ''index.html'' ''<html>'', Directory ''assets'' [File ''app.js'' ''x'']])
       = [''deployments/0b5c9e7e-6f0a-4c1e-9d53-2a7c1f4e8b11/2024-05-01T10-20-30-000Z/index.html'',
          ''deployments/0b5c9e7e-6f0a-4c1e-9d53-2a7c1f4e8b11/2024-05-01T10-20-30-000Z/assets/app.js'']
   \<and> serveFileKey ''0b5c9e7e-6f0a-4c1e-9d53-2a7c1f4e8b11.example.com'' ''/index.html''
       = ''dist/0b5c9e7e-6f0a-4c1e-9d53-2a7c1f4e8b11/index.html''
   \<and> serveFileKey ''0b5c9e7e-6f0a-4c1e-9d53-2a7c1f4e8b11.example.com'' ''/index.html''
       \<notin> set (uploadDistFolder_keys ''0b5c9e7e-6f0a-4c1e-9d53-2a7c1f4e8b11'' (Some ''2024-05-01T10-20-30-000Z'')
               (Some [File ''index.html'' ''<html>'', Directory ''assets'' [File ''app.js'' ''x'']]))"
proof -
  let ?id = "''0b5c9e7e-6f0a-4c1e-9d53-2a7c1f4e8b11''"
  let ?dep = "''2024-05-01T10-20-30-000Z''"
  let ?dist = "[File ''index.html'' ''<html>'', Directory ''assets'' [File ''app.js'' ''x'']]"
  have a: "plainName ?id" by code_simp
  have b: "plainName ?dep" by code_simp
  have c: "list_all plainNames ?dist" by code_simp
  have k: "uploadDistFolder_keys ?id (Some ?dep) (Some ?dist)
       = [''deployments/0b5c9e7e-6f0a-4c1e-9d53-2a7c1f4e8b11/2024-05-01T10-20-30-000Z/index.html'',
          ''deployments/0b5c9e7e-6f0a-4c1e-9d53-2a7c1f4e8b11/2024-05-01T10-20-30-000Z/assets/app.js'']"
    by code_simp
  have s: "serveFileKey ''0b5c9e7e-6f0a-4c1e-9d53-2a7c1f4e8b11.example.com'' ''/index.html''
       = ''dist/0b5c9e7e-6f0a-4c1e-9d53-2a7c1f4e8b11/index.html''"
    by code_simp
  from C10_published_keys_never_served
         [of ?id "Some ?dep" "Some ?dist" "''0b5c9e7e-6f0a-4c1e-9d53-2a7c1f4e8b11.example.com''" "''/index.html''"]
       a b c
  have "serveFileKey ''0b5c9e7e-6f0a-4c1e-9d53-2a7c1f4e8b11.example.com'' ''/index.html''
       \<notin> set (uploadDistFolder_keys ?id (Some ?dep) (Some ?dist))"
    by simp
  with a b c k s show ?thesis by blast
qed

text \<open>
  Claim C10 as stated fails for a job identifier that is not a plain name. The identifier
  is whatever element \<open>brPop\<close> takes from the queue, and \<open>path.posix.join\<close> resolves
  \<open>..\<close> in it: for the identifier \<open>../dist/x\<close> the prefix \<open>deployments/../dist/x/...\<close>
  is normalised to \<open>dist/x/...\<close>, so the key published does not begin with
  \<open>deployments/\<close> and is the key that the content server reads for the host
  \<open>x.example.com\<close>.
\<close>

theorem C10_identifier_with_dots_publishes_served_key:
  "uploadDistFolder_keys ''../dist/x'' (Some ''2024-05-01T10-20-30-000Z'')
       (Some [File ''index.html'' ''<html>''])
     = [''dist/x/2024-05-01T10-20-30-000Z/index.html'']
   \<and> serveFileKey ''x.example.com'' ''/2024-05-01T10-20-30-000Z/index.html''
     = ''dist/x/2024-05-01T10-20-30-000Z/index.html''
   \<and> \<not> prefix ''deployments/'' ''dist/x/2024-05-01T10-20-30-000Z/index.html''
   \<and> \<not> plainName ''../dist/x''"
  by code_simp

section \<open>The statistics pass in both directions\<close>

text \<open>
  Claim C5, as amended. After the statistics pass \<open>totalFiles\<close> and \<open>totalBytes\<close> are the
  number and the total size of the files of the source, at any nesting depth, where the
  download direction leaves out every listed object of size 0, be it a directory
  placeholder or an empty file: the upload counts all files of the tree; the download, which
  finishes on every listing that ends, counts the listed objects of positive size.
\<close>

theorem C5_statistics_pass_counts:
  "uploadStatisticsPass now entries =
     \<lparr>totalFiles = int (length (treeFiles dir entries)), filesTransferred = 0,
      totalBytes = (\<Sum>(path, bytes) \<leftarrow> treeFiles dir entries. int (length bytes)),
      bytesTransferred = 0, startTime = now, lastLogTime = now\<rparr>
   \<and> (responses \<noteq> [] \<and> \<not> IsTruncated (last responses)
        \<longrightarrow> calculateS3Stats responses (resetStats now) \<noteq> None)
   \<and> (calculateS3Stats responses (resetStats now) = Some st \<longrightarrow>
        st = \<lparr>totalFiles = int (length (filter (\<lambda>obj. sizeOf obj > 0) (listedObjects responses))),
              filesTransferred = 0,
              totalBytes = (\<Sum>obj \<leftarrow> filter (\<lambda>obj. sizeOf obj > 0) (listedObjects responses). sizeOf obj),
              bytesTransferred = 0, startTime = now, lastLogTime = now\<rparr>)"
proof -
  have "calculateS3Stats responses (resetStats now) = Some st \<longrightarrow>
        st = \<lparr>totalFiles = int (length (filter (\<lambda>obj. sizeOf obj > 0) (listedObjects responses))),
              filesTransferred = 0,
              totalBytes = (\<Sum>obj \<leftarrow> filter (\<lambda>obj. sizeOf obj > 0) (listedObjects responses). sizeOf obj),
              bytesTransferred = 0, startTime = now, lastLogTime = now\<rparr>"
  proof
    assume "calculateS3Stats responses (resetStats now) = Some st"
    from calculateS3Stats_counts [OF this] show
       "st = \<lparr>totalFiles = int (length (filter (\<lambda>obj. sizeOf obj > 0) (listedObjects responses))),
              filesTransferred = 0,
              totalBytes = (\<Sum>obj \<leftarrow> filter (\<lambda>obj. sizeOf obj > 0) (listedObjects responses). sizeOf obj),
              bytesTransferred = 0, startTime = now, lastLogTime = now\<rparr>"
      by (simp add: resetStats_def)
  qed
  with uploadStatisticsPass_counts [of now entries dir] calculateS3Stats_returns [of responses "resetStats now"]
  show ?thesis by blast
qed

theorem C5_statistics_pass_counts_witness:
  "[pageOf [''abc123/index.html'', ''abc123/app.js'']] \<noteq> []
   \<and> \<not> IsTruncated (last [pageOf [''abc123/index.html'', ''abc123/app.js'']])
   \<and> calculateS3Stats [pageOf [''abc123/index.html'', ''abc123/app.js'']] (resetStats 7)
       = Some \<lparr>totalFiles = 2, filesTransferred = 0, totalBytes = 2, bytesTransferred = 0,
               startTime = 7, lastLogTime = 7\<rparr>
   \<and> uploadStatisticsPass 7 twoDirectories
       = \<lparr>totalFiles = 6, filesTransferred = 0, totalBytes = 6, bytesTransferred = 0,
          startTime = 7, lastLogTime = 7\<rparr>"
proof -
  let ?rs = "[pageOf [''abc123/index.html'', ''abc123/app.js'']]"
  let ?st = "\<lparr>totalFiles = 2, filesTransferred = 0, totalBytes = 2, bytesTransferred = 0,
               startTime = 7, lastLogTime = 7\<rparr>"
  have a: "?rs \<noteq> []" by simp
  have b: "\<not> IsTruncated (last ?rs)" by (simp add: pageOf_def)
  have c: "calculateS3Stats ?rs (resetStats 7) = Some ?st" by code_simp
  have d: "uploadStatisticsPass 7 twoDirectories
       = \<lparr>totalFiles = 6, filesTransferred = 0, totalBytes = 6, bytesTransferred = 0,
          startTime = 7, lastLogTime = 7\<rparr>" by code_simp
  from C5_statistics_pass_counts [of 7 twoDirectories "''output/abc123''" ?rs ?st] a b c
  have "calculateS3Stats ?rs (resetStats 7) \<noteq> None" by blast
  with a b c d show ?thesis by blast
qed

text \<open>
  Claim C5 as stated fails in the download direction. For a tree of an empty file and a
  file of six bytes the statistics pass of the upload counts 2 files; the statistics pass of
  the download over the objects stored for that tree counts 1, since it leaves out the
  object of size 0 that stands for the empty file.
\<close>

theorem C5_empty_file_not_counted_by_download:
  "totalFiles (uploadStatisticsPass 0 [File ''empty.txt'' [], File ''index.html'' ''<html>'']) = 2
   \<and> length (treeFiles ''output/abc123'' [File ''empty.txt'' [], File ''index.html'' ''<html>'']) = 2
   \<and> map_option (\<lambda>run. totalFiles (d_stats run))
        (roundTrip [File ''empty.txt'' [], File ''index.html'' ''<html>''] ''abc123'' ''output/abc123'') = Some 1"
  by code_simp

section \<open>Upload followed by download\<close>

text \<open>
  The objects stored for a tree and the files of the tree are the same relative paths under
  two roots; in a well-formed tree no two files have the same path, so every key is stored
  once and a bucket filled by the upload returns for every key the bytes of its file.
\<close>

lemma relativeFiles_nonempty: "(segs, bytes) \<in> set (relativeFiles e) \<Longrightarrow> segs \<noteq> []"
  by (cases e) auto

lemma relativeFiles_hd: "(segs, bytes) \<in> set (relativeFiles e) \<Longrightarrow> hd segs = entryName e"
  by (cases e) auto

lemma relativeFiles_plain:
  "wellFormed e \<Longrightarrow> (segs, bytes) \<in> set (relativeFiles e) \<Longrightarrow> \<forall>s \<in> set segs. plainName s"
proof (induction e arbitrary: segs)
  case (File name content)
  then show ?case by simp
next
  case (Directory name entries)
  from Directory.prems(2) obtain x segs' where x: "x \<in> set entries"
    and r: "(segs', bytes) \<in> set (relativeFiles x)" and s: "segs = name # segs'"
    by auto
  from Directory.prems(1) x have "wellFormed x" by (simp add: list_all_iff)
  from Directory.IH [OF x this r] Directory.prems(1) s show ?case by simp
qed

lemma concat_map_cong:
  "(\<And>x. x \<in> set xs \<Longrightarrow> f x = g x) \<Longrightarrow> concat (map f xs) = concat (map g xs)"
  by (induction xs) auto

lemma concat_map_map: "concat (map (\<lambda>x. map h (r x)) xs) = map h (concat (map r xs))"
  by (induction xs) auto

lemma join_slash_Cons: "segs \<noteq> [] \<Longrightarrow> join_slash (name # segs) = name @ CHR ''/'' # join_slash segs"
  by (cases segs) simp_all

lemma objectsOf_relative:
  "p \<noteq> [] \<Longrightarrow> objectsOf p e = map (\<lambda>(segs, bytes). (p @ CHR ''/'' # join_slash segs, bytes)) (relativeFiles e)"
proof (induction e arbitrary: p)
  case (File name content)
  then show ?case by (simp add: entryS3Key_def)
next
  case (Directory name entries)
  let ?q = "entryS3Key p name"
  from Directory.prems have q: "?q = p @ CHR ''/'' # name" and qne: "?q \<noteq> []"
    by (simp_all add: entryS3Key_def)
  have "objectsOf ?q x = map (\<lambda>(segs, bytes). (p @ CHR ''/'' # join_slash (name # segs), bytes)) (relativeFiles x)"
    if "x \<in> set entries" for x
  proof -
    have "map (\<lambda>(segs, bytes). (?q @ CHR ''/'' # join_slash segs, bytes)) (relativeFiles x)
        = map (\<lambda>(segs, bytes). (p @ CHR ''/'' # join_slash (name # segs), bytes)) (relativeFiles x)"
      by (rule map_cong) (auto simp: q join_slash_Cons dest: relativeFiles_nonempty)
    with Directory.IH [OF that qne] show ?thesis by simp
  qed
  then have "concat (map (objectsOf ?q) entries)
      = concat (map (\<lambda>x. map (\<lambda>(segs, bytes). (p @ CHR ''/'' # join_slash (name # segs), bytes)) (relativeFiles x)) entries)"
    by (rule concat_map_cong)
  also have "\<dots> = map (\<lambda>(segs, bytes). (p @ CHR ''/'' # join_slash (name # segs), bytes))
                    (concat (map relativeFiles entries))"
    by (rule concat_map_map)
  finally show ?case
    by (simp add: comp_def case_prod_unfold)
qed

lemma treeObjects_relative:
  assumes "p \<noteq> []"
  shows "treeObjects p entries
     = map (\<lambda>(segs, bytes). (p @ CHR ''/'' # join_slash segs, bytes)) (treeRelativeFiles entries)"
proof -
  have "concat (map (objectsOf p) entries)
      = concat (map (\<lambda>e. map (\<lambda>(segs, bytes). (p @ CHR ''/'' # join_slash segs, bytes)) (relativeFiles e)) entries)"
    by (rule concat_map_cong) (rule objectsOf_relative [OF assms])
  also have "\<dots> = map (\<lambda>(segs, bytes). (p @ CHR ''/'' # join_slash segs, bytes))
                    (concat (map relativeFiles entries))"
    by (rule concat_map_map)
  finally show ?thesis by (simp add: treeObjects_def treeRelativeFiles_def)
qed

lemma filesOf_relative:
  "cleanPath d \<Longrightarrow> wellFormed e \<Longrightarrow>
     filesOf d e = map (\<lambda>(segs, bytes). (d @ CHR ''/'' # join_slash segs, bytes)) (relativeFiles e)"
proof (induction e arbitrary: d)
  case (File name content)
  then have "cleanPath name" by (simp add: cleanPath_plain)
  from posix_join_clean(1) [OF File.prems(1) this] show ?case by simp
next
  case (Directory name entries)
  from Directory.prems have n: "cleanPath name" by (simp add: cleanPath_plain)
  let ?q = "posix_join [d, name]"
  from posix_join_clean [OF Directory.prems(1) n]
  have q: "?q = d @ CHR ''/'' # name" and qc: "cleanPath ?q" by simp_all
  have "filesOf ?q x = map (\<lambda>(segs, bytes). (d @ CHR ''/'' # join_slash (name # segs), bytes)) (relativeFiles x)"
    if "x \<in> set entries" for x
  proof -
    from Directory.prems(2) that have w: "wellFormed x" by (simp add: list_all_iff)
    have "map (\<lambda>(segs, bytes). (?q @ CHR ''/'' # join_slash segs, bytes)) (relativeFiles x)
        = map (\<lambda>(segs, bytes). (d @ CHR ''/'' # join_slash (name # segs), bytes)) (relativeFiles x)"
      by (rule map_cong) (auto simp: q join_slash_Cons dest: relativeFiles_nonempty)
    with Directory.IH [OF that qc w] show ?thesis by simp
  qed
  then have "concat (map (filesOf ?q) entries)
      = concat (map (\<lambda>x. map (\<lambda>(segs, bytes). (d @ CHR ''/'' # join_slash (name # segs), bytes)) (relativeFiles x)) entries)"
    by (rule concat_map_cong)
  also have "\<dots> = map (\<lambda>(segs, bytes). (d @ CHR ''/'' # join_slash (name # segs), bytes))
                    (concat (map relativeFiles entries))"
    by (rule concat_map_map)
  finally show ?case
    by (simp add: comp_def case_prod_unfold)
qed

lemma treeFiles_relative:
  assumes "cleanPath d" and "list_all wellFormed entries"
  shows "treeFiles d entries
     = map (\<lambda>(segs, bytes). (d @ CHR ''/'' # join_slash segs, bytes)) (treeRelativeFiles entries)"
proof -
  have "concat (map (filesOf d) entries)
      = concat (map (\<lambda>e. map (\<lambda>(segs, bytes). (d @ CHR ''/'' # join_slash segs, bytes)) (relativeFiles e)) entries)"
  proof (rule concat_map_cong)
    fix x assume "x \<in> set entries"
    with assms(2) have "wellFormed x" by (simp add: list_all_iff)
    with assms(1) show "filesOf d x
        = map (\<lambda>(segs, bytes). (d @ CHR ''/'' # join_slash segs, bytes)) (relativeFiles x)"
      by (rule filesOf_relative)
  qed
  also have "\<dots> = map (\<lambda>(segs, bytes). (d @ CHR ''/'' # join_slash segs, bytes))
                    (concat (map relativeFiles entries))"
    by (rule concat_map_map)
  finally show ?thesis by (simp add: treeFiles_def treeRelativeFiles_def)
qed

lemma distinct_concat_relativeFiles:
  "distinct (map entryName es) \<Longrightarrow> (\<And>e. e \<in> set es \<Longrightarrow> distinct (map fst (relativeFiles e)))
     \<Longrightarrow> distinct (map fst (concat (map relativeFiles es)))"
proof (induction es)
  case Nil
  show ?case by simp
next
  case (Cons e es)
  from Cons.prems have d: "distinct (map fst (relativeFiles e))"
    and r: "distinct (map fst (concat (map relativeFiles es)))"
    and n: "entryName e \<notin> entryName ` set es"
    using Cons.IH by simp_all
  have "fst ` set (relativeFiles e) \<inter> fst ` set (concat (map relativeFiles es)) = {}"
  proof (rule ccontr)
    assume "fst ` set (relativeFiles e) \<inter> fst ` set (concat (map relativeFiles es)) \<noteq> {}"
    then obtain segs where s1: "segs \<in> fst ` set (relativeFiles e)"
      and s2: "segs \<in> fst ` set (concat (map relativeFiles es))" by blast
    from s1 obtain b where b: "(segs, b) \<in> set (relativeFiles e)" by force
    from s2 obtain b' where "(segs, b') \<in> set (concat (map relativeFiles es))" by force
    then obtain x where x: "x \<in> set es" and b': "(segs, b') \<in> set (relativeFiles x)" by auto
    from relativeFiles_hd [OF b] relativeFiles_hd [OF b'] have "entryName e = entryName x" by simp
    with x n show False by blast
  qed
  with d r show ?case by simp
qed

lemma distinct_relativeFiles: "wellFormed e \<Longrightarrow> distinct (map fst (relativeFiles e))"
proof (induction e)
  case (File name content)
  show ?case by simp
next
  case (Directory name entries)
  have "distinct (map fst (concat (map relativeFiles entries)))"
  proof (rule distinct_concat_relativeFiles)
    from Directory.prems show "distinct (map entryName entries)" by simp
  next
    fix e assume e: "e \<in> set entries"
    with Directory.prems have "wellFormed e" by (simp add: list_all_iff)
    with e show "distinct (map fst (relativeFiles e))" by (rule Directory.IH)
  qed
  moreover have "map fst (relativeFiles (Directory name entries))
      = map (\<lambda>segs. name # segs) (map fst (concat (map relativeFiles entries)))"
    by (simp add: comp_def case_prod_unfold)
  moreover have "inj_on (\<lambda>segs. name # segs) (set (map fst (concat (map relativeFiles entries))))"
    by (simp add: inj_on_def)
  ultimately show ?case
    by (simp only: distinct_map simp_thms)
qed

lemma distinct_treeRelativeFiles:
  assumes "wellFormedTree entries"
  shows "distinct (map fst (treeRelativeFiles entries))"
  unfolding treeRelativeFiles_def
proof (rule distinct_concat_relativeFiles)
  from assms show "distinct (map entryName entries)" by (simp add: wellFormedTree_def)
next
  fix e assume "e \<in> set entries"
  with assms have "wellFormed e" by (simp add: wellFormedTree_def list_all_iff)
  then show "distinct (map fst (relativeFiles e))" by (rule distinct_relativeFiles)
qed

lemma treeRelativeFiles_segments:
  assumes "wellFormedTree entries" and "(segs, bytes) \<in> set (treeRelativeFiles entries)"
  shows "segs \<noteq> []" and "\<forall>s \<in> set segs. plainName s"
proof -
  from assms(2) obtain e where e: "e \<in> set entries" and r: "(segs, bytes) \<in> set (relativeFiles e)"
    by (auto simp: treeRelativeFiles_def)
  from r show "segs \<noteq> []" by (rule relativeFiles_nonempty)
  from assms(1) e have "wellFormed e" by (simp add: wellFormedTree_def list_all_iff)
  from relativeFiles_plain [OF this r] show "\<forall>s \<in> set segs. plainName s" .
qed

lemma join_slash_inject:
  assumes "xs \<noteq> []" "\<forall>s \<in> set xs. plainName s" "ys \<noteq> []" "\<forall>s \<in> set ys. plainName s"
    and "join_slash xs = join_slash ys"
  shows "xs = ys"
proof -
  from assms(2) have sx: "\<forall>s \<in> set xs. CHR ''/'' \<notin> set s" by (simp add: plainName_def)
  from assms(4) have sy: "\<forall>s \<in> set ys. CHR ''/'' \<notin> set s" by (simp add: plainName_def)
  have "xs = split_slash (join_slash xs)" by (rule split_join [OF assms(1) sx, symmetric])
  also have "\<dots> = split_slash (join_slash ys)" by (simp only: assms(5))
  also have "\<dots> = ys" by (rule split_join [OF assms(3) sy])
  finally show ?thesis .
qed

lemma distinct_treeObjects:
  assumes "wellFormedTree entries" and "p \<noteq> []"
  shows "distinct (map fst (treeObjects p entries))"
proof -
  have m: "map fst (treeObjects p entries)
      = map (\<lambda>segs. p @ CHR ''/'' # join_slash segs) (map fst (treeRelativeFiles entries))"
    by (simp add: treeObjects_relative [OF assms(2)] comp_def case_prod_unfold)
  have "inj_on (\<lambda>segs. p @ CHR ''/'' # join_slash segs) (set (map fst (treeRelativeFiles entries)))"
  proof (rule inj_onI)
    fix xs ys
    assume x: "xs \<in> set (map fst (treeRelativeFiles entries))"
      and y: "ys \<in> set (map fst (treeRelativeFiles entries))"
      and eq: "p @ CHR ''/'' # join_slash xs = p @ CHR ''/'' # join_slash ys"
    from x obtain b where "(xs, b) \<in> set (treeRelativeFiles entries)" by auto
    from treeRelativeFiles_segments [OF assms(1) this]
    have xs: "xs \<noteq> []" "\<forall>s \<in> set xs. plainName s" .
    from y obtain c where "(ys, c) \<in> set (treeRelativeFiles entries)" by auto
    from treeRelativeFiles_segments [OF assms(1) this]
    have ys: "ys \<noteq> []" "\<forall>s \<in> set ys. plainName s" .
    from eq have "join_slash xs = join_slash ys" by simp
    with xs ys show "xs = ys" by (rule join_slash_inject)
  qed
  then have "distinct (map (\<lambda>segs. p @ CHR ''/'' # join_slash segs) (map fst (treeRelativeFiles entries)))"
    using distinct_treeRelativeFiles [OF assms(1)] by (simp only: distinct_map simp_thms)
  then show ?thesis by (simp only: m)
qed

lemma putObjects_Nil: "putObjects [] b = b"
  by (simp add: putObjects_def)

lemma putObjects_Cons:
  "putObjects ((key, bytes) # objs) b = putObjects objs ((key, bytes) # filter (\<lambda>(k, v). k \<noteq> key) b)"
  by (simp add: putObjects_def)

lemma set_filter_other_keys:
  "set (filter (\<lambda>(k, v). k \<noteq> key) b) = {x \<in> set b. fst x \<noteq> key}"
  by (auto simp: case_prod_unfold)

lemma putObjects_functional:
  "functional (set objs \<union> set b) \<Longrightarrow> distinct (map fst b) \<Longrightarrow>
     set (putObjects objs b) = set objs \<union> set b \<and> distinct (map fst (putObjects objs b))"
proof (induction objs arbitrary: b)
  case Nil
  then show ?case by (simp add: putObjects_Nil)
next
  case (Cons obj objs)
  obtain key bytes where o: "obj = (key, bytes)" by (cases obj)
  let ?b = "(key, bytes) # filter (\<lambda>(k, v). k \<noteq> key) b"
  have sb: "set ?b = insert (key, bytes) {x \<in> set b. fst x \<noteq> key}"
    by (simp only: list.set set_filter_other_keys)
  have same: "x = (key, bytes)" if "x \<in> set b" and "fst x = key" for x
  proof -
    from that(2) obtain v where xv: "x = (key, v)" by (metis prod.collapse)
    with that(1) have "(key, v) \<in> set (obj # objs) \<union> set b" by simp
    moreover from o have "(key, bytes) \<in> set (obj # objs) \<union> set b" by simp
    ultimately have "v = bytes"
      using Cons.prems(1) unfolding functional_def by blast
    with xv show ?thesis by simp
  qed
  have u: "set objs \<union> set ?b = set (obj # objs) \<union> set b"
    unfolding sb using o same by auto
  from Cons.prems(1) have f: "functional (set objs \<union> set ?b)"
    unfolding u .
  from Cons.prems(2) have d: "distinct (map fst ?b)"
    by (auto simp: distinct_map_filter case_prod_unfold)
  from Cons.IH [OF f d]
  have "set (putObjects objs ?b) = set objs \<union> set ?b" and "distinct (map fst (putObjects objs ?b))"
    by simp_all
  moreover have "putObjects (obj # objs) b = putObjects objs ?b"
    unfolding o putObjects_Cons ..
  ultimately show ?case unfolding u by simp
qed

lemma functional_distinct: "distinct (map fst xs) \<Longrightarrow> functional (set xs)"
  unfolding functional_def by (metis eq_key_imp_eq_value)

lemma listed_all:
  "(\<And>key bytes. (key, bytes) \<in> set b \<Longrightarrow> take (length p) key = p) \<Longrightarrow> listed b p = map toObject b"
proof -
  assume a: "\<And>key bytes. (key, bytes) \<in> set b \<Longrightarrow> take (length p) key = p"
  have "filter (\<lambda>(key, bytes). take (length p) key = p) b = b"
    by (rule filter_True) (use a in auto)
  then show ?thesis
    by (simp add: listed_def toObject_def case_prod_unfold)
qed

lemma calculateS3Stats_paginate: "calculateS3Stats (paginate n m objs) st \<noteq> None"
  by (induction n arbitrary: objs st) (simp_all add: Let_def)

lemma transferLoop_neverSettled:
  "transferLoop neverSettled k p d responses st = Some st' \<Longrightarrow> settledEarly st' = settledEarly st"
proof (induction responses arbitrary: k st)
  case Nil
  then show ?case by simp
next
  case (Cons r rs)
  let ?st0 = "st\<lparr>inFlight := filter (\<lambda>key. \<not> neverSettled k key) (inFlight st),
                  settledEarly := settledEarly st @ filter (neverSettled k) (inFlight st)\<rparr>"
  let ?st1 = "case Contents r of None \<Rightarrow> ?st0 | Some objs \<Rightarrow> processContents p d objs ?st0"
  have s1: "settledEarly ?st1 = settledEarly st"
    by (cases "Contents r") (simp_all add: processContents_settledEarly neverSettled_def)
  show ?case
  proof (cases "IsTruncated r")
    case False
    with Cons.prems have "st' = ?st1" by (simp add: Let_def)
    with s1 show ?thesis by simp
  next
    case True
    with Cons.prems have "transferLoop neverSettled (Suc k) p d rs ?st1 = Some st'"
      by (simp add: Let_def)
    from Cons.IH [OF this] s1 show ?thesis by simp
  qed
qed

lemma transferLoop_paginate:
  "\<exists>st'. transferLoop settled k p d (paginate n m objs) st = Some st'
     \<and> calls st' = calls st @ map (\<lambda>obj. (keyOf obj, localFilePath p d (keyOf obj))) (filter downloadable objs)"
proof (induction n arbitrary: k st objs)
  case 0
  let ?st0 = "st\<lparr>inFlight := filter (\<lambda>key. \<not> settled k key) (inFlight st),
                  settledEarly := settledEarly st @ filter (settled k) (inFlight st)\<rparr>"
  have "transferLoop settled k p d (paginate 0 m objs) st = Some (processContents p d objs ?st0)"
    by (simp add: Let_def)
  moreover from processContents_fields [of p d objs ?st0]
  have "calls (processContents p d objs ?st0)
      = calls st @ map (\<lambda>obj. (keyOf obj, localFilePath p d (keyOf obj))) (filter downloadable objs)"
    by simp
  ultimately show ?case by simp
next
  case (Suc n)
  let ?st0 = "st\<lparr>inFlight := filter (\<lambda>key. \<not> settled k key) (inFlight st),
                  settledEarly := settledEarly st @ filter (settled k) (inFlight st)\<rparr>"
  let ?f = "\<lambda>obj. (keyOf obj, localFilePath p d (keyOf obj))"
  show ?case
  proof (cases "length objs \<le> m")
    case True
    then have "transferLoop settled k p d (paginate (Suc n) m objs) st = Some (processContents p d objs ?st0)"
      by (simp add: Let_def)
    moreover from processContents_fields [of p d objs ?st0]
    have "calls (processContents p d objs ?st0) = calls st @ map ?f (filter downloadable objs)"
      by simp
    ultimately show ?thesis by simp
  next
    case False
    let ?st1 = "processContents p d (take m objs) ?st0"
    from False have "transferLoop settled k p d (paginate (Suc n) m objs) st
        = transferLoop settled (Suc k) p d (paginate n m (drop m objs)) ?st1"
      by (simp add: Let_def)
    moreover from Suc.IH [of "Suc k" "drop m objs" ?st1] obtain st' where
      "transferLoop settled (Suc k) p d (paginate n m (drop m objs)) ?st1 = Some st'"
      and c: "calls st' = calls ?st1 @ map ?f (filter downloadable (drop m objs))"
      by blast
    moreover from processContents_fields [of p d "take m objs" ?st0]
    have "calls ?st1 = calls st @ map ?f (filter downloadable (take m objs))"
      by simp
    moreover have "map ?f (filter downloadable (take m objs)) @ map ?f (filter downloadable (drop m objs))
        = map ?f (filter downloadable objs)"
      by (simp only: map_append [symmetric] filter_append [symmetric] append_take_drop_id)
    ultimately show ?thesis by simp
  qed
qed

lemma localFilePath_clean:
  assumes "cleanPath d" and "cleanPath rel"
  shows "localFilePath p d (p @ CHR ''/'' # rel) = d @ CHR ''/'' # rel"
  using posix_join_clean(1) [OF assms] by (simp add: localFilePath_def)



lemma oks_allSucceed: "oks allSucceed C = C"
  by (auto simp: oks_def allSucceed_def)

lemma stored_allSucceed:
  "set (stored (uploadDirectory allSucceed entries p)) = set (treeObjects p entries)"
  using describes_upload(2) [of allSucceed entries p] by (simp add: describes_def oks_allSucceed)

lemma rejections_allSucceed: "rejections (uploadDirectory allSucceed entries p) = []"
proof -
  have "fails allSucceed (set (treeObjects p entries)) = {}"
    by (auto simp: fails_def allSucceed_def)
  with describes_upload(2) [of allSucceed entries p] show ?thesis by (simp add: describes_def)
qed

lemma getObject_found:
  "distinct (map fst b) \<Longrightarrow> (key, bytes) \<in> set b \<Longrightarrow> getObject b key = Written bytes"
  by (simp add: getObject_def)

lemma downloadable_toObject: "downloadable (toObject kb) = (fst kb \<noteq> [] \<and> snd kb \<noteq> [])"
  by (simp add: downloadable_def toObject_def)

lemma keyOf_toObject: "keyOf (toObject kb) = fst kb"
  by (simp add: keyOf_def toObject_def)

lemma calls_of_bucket:
  assumes "\<And>kb. kb \<in> set b \<Longrightarrow> fst kb \<noteq> []"
  shows "map (\<lambda>obj. (keyOf obj, localFilePath p d (keyOf obj))) (filter downloadable (map toObject b))
     = map (\<lambda>kb. (fst kb, localFilePath p d (fst kb))) (filter (\<lambda>kb. snd kb \<noteq> []) b)"
  using assms
proof (induction b)
  case Nil
  show ?case by simp
next
  case (Cons kb b)
  from Cons.prems have "fst kb \<noteq> []" and "\<And>x. x \<in> set b \<Longrightarrow> fst x \<noteq> []" by simp_all
  with Cons.IH show ?case
    by (simp add: downloadable_toObject keyOf_toObject)
qed

lemma written_of_calls:
  assumes "distinct (map fst b)" and "set xs \<subseteq> set b"
  shows "concat (map (\<lambda>(key, path). case getObject b key of Rejects e \<Rightarrow> [e] | _ \<Rightarrow> [])
            (map (\<lambda>kb. (fst kb, localFilePath p d (fst kb))) xs)) = []"
    and "concat (map (\<lambda>(key, path). case getObject b key of Written bytes \<Rightarrow> [(path, bytes)] | _ \<Rightarrow> [])
            (map (\<lambda>kb. (fst kb, localFilePath p d (fst kb))) xs))
         = map (\<lambda>kb. (localFilePath p d (fst kb), snd kb)) xs"
    and "concat (map (\<lambda>(key, path). case getObject b key of ReadError e \<Rightarrow> [e] | _ \<Rightarrow> [])
            (map (\<lambda>kb. (fst kb, localFilePath p d (fst kb))) xs)) = []"
  using assms(2)
proof (induction xs)
  case Nil
  { case 1 show ?case by simp }
  { case 2 show ?case by simp }
  { case 3 show ?case by simp }
next
  case (Cons kb xs)
  { case 1
    then have "kb \<in> set b" and s: "set xs \<subseteq> set b" by simp_all
    then have "getObject b (fst kb) = Written (snd kb)"
      using getObject_found [OF assms(1), of "fst kb" "snd kb"] by simp
    with Cons.IH(1) [OF s] show ?case by simp }
  { case 2
    then have "kb \<in> set b" and s: "set xs \<subseteq> set b" by simp_all
    then have "getObject b (fst kb) = Written (snd kb)"
      using getObject_found [OF assms(1), of "fst kb" "snd kb"] by simp
    with Cons.IH(2) [OF s] show ?case by simp }
  { case 3
    then have "kb \<in> set b" and s: "set xs \<subseteq> set b" by simp_all
    then have "getObject b (fst kb) = Written (snd kb)"
      using getObject_found [OF assms(1), of "fst kb" "snd kb"] by simp
    with Cons.IH(3) [OF s] show ?case by simp }
qed

text \<open>
  Claim C4, as amended. For every well-formed local tree, a prefix that is not empty and a
  local directory given by a path of plain names: the upload into an empty bucket, on which
  every transfer succeeds, followed by the download from that prefix finishes without an
  error, and the files it writes are exactly the files of the tree that are not empty, each
  at the same relative path and with the same bytes.
\<close>

theorem C4_round_trip_reproduces_nonempty_files:
  assumes wf: "wellFormedTree entries" and p: "s3Prefix \<noteq> []" and d: "cleanPath localDir"
  shows "\<exists>run. roundTrip entries s3Prefix localDir = Some run
           \<and> d_rejections run = [] \<and> d_uncaught run = []
           \<and> set (d_written run) = {(path, bytes) \<in> set (treeFiles localDir entries). bytes \<noteq> []}"
proof -
  let ?T = "treeObjects s3Prefix entries"
  let ?R = "treeRelativeFiles entries"
  let ?S = "stored (uploadDirectory allSucceed entries s3Prefix)"
  let ?b = "putObjects ?S []"
  let ?objs = "map toObject ?b"
  let ?f = "\<lambda>obj. (keyOf obj, localFilePath s3Prefix localDir (keyOf obj))"
  let ?g = "\<lambda>kb. (fst kb, localFilePath s3Prefix localDir (fst kb))"
  let ?nonempty = "filter (\<lambda>kb. snd kb \<noteq> []) ?b"
  have T: "?T = map (\<lambda>(segs, bytes). (s3Prefix @ CHR ''/'' # join_slash segs, bytes)) ?R"
    by (rule treeObjects_relative [OF p])
  have ST: "set ?S = set ?T" by (rule stored_allSucceed)
  have "functional (set ?T)"
    by (rule functional_distinct) (rule distinct_treeObjects [OF wf p])
  with ST have "functional (set ?S \<union> set [])" by simp
  from putObjects_functional [OF this] have b: "set ?b = set ?T" and db: "distinct (map fst ?b)"
    using ST by simp_all
  have key: "\<exists>segs. (segs, snd kb) \<in> set ?R \<and> fst kb = s3Prefix @ CHR ''/'' # join_slash segs"
    if "kb \<in> set ?b" for kb
    using that unfolding b T by auto
  have pre: "take (length s3Prefix) k = s3Prefix" if "(k, v) \<in> set ?b" for k v
    using key [OF that] by auto
  have ne: "fst kb \<noteq> []" if "kb \<in> set ?b" for kb
    using key [OF that] by auto
  have l: "listObjectsV2 1000 ?b s3Prefix = paginate (length ?objs) 1000 ?objs"
    using listed_all [of ?b s3Prefix, OF pre] by (simp add: listObjectsV2_def)
  from calculateS3Stats_paginate [of "length ?objs" 1000 ?objs "resetStats 0"]
  obtain sts where sts: "calculateS3Stats (paginate (length ?objs) 1000 ?objs) (resetStats 0) = Some sts"
    by blast
  from transferLoop_paginate [of neverSettled 0 s3Prefix localDir "length ?objs" 1000 ?objs
          "\<lparr>calls = [], downloadPromises = [], inFlight = [], highWater = 0, settledEarly = []\<rparr>"]
  obtain pass where pass: "transferLoop neverSettled 0 s3Prefix localDir (paginate (length ?objs) 1000 ?objs)
          \<lparr>calls = [], downloadPromises = [], inFlight = [], highWater = 0, settledEarly = []\<rparr> = Some pass"
    and "calls pass = map ?f (filter downloadable ?objs)"
    by auto
  with calls_of_bucket [of ?b s3Prefix localDir, OF ne]
  have c: "calls pass = map ?g ?nonempty" by simp
  from transferLoop_neverSettled [OF pass] have se: "settledEarly pass = []" by simp
  let ?run = "\<lparr>d_stats = sts, d_pass = pass,
      d_rejections = concat (map (\<lambda>(key, path). case getObject ?b key of Rejects e \<Rightarrow> [e] | _ \<Rightarrow> []) (calls pass)),
      d_written = concat (map (\<lambda>(key, path). case getObject ?b key of Written bytes \<Rightarrow> [(path, bytes)] | _ \<Rightarrow> []) (calls pass)),
      d_uncaught = concat (map (\<lambda>(key, path). case getObject ?b key of ReadError e \<Rightarrow> [e] | _ \<Rightarrow> []) (calls pass))
                 @ concat (map (\<lambda>key. case getObject ?b key of Rejects e \<Rightarrow> [e] | _ \<Rightarrow> []) (settledEarly pass))\<rparr>"
  have run: "roundTrip entries s3Prefix localDir = Some ?run"
    unfolding roundTrip_def Let_def l downloadFromS3_def sts pass by simp
  have sub: "set ?nonempty \<subseteq> set ?b" by auto
  from written_of_calls [OF db sub, of s3Prefix localDir]
  have rej: "d_rejections ?run = []"
    and wr: "d_written ?run = map (\<lambda>kb. (localFilePath s3Prefix localDir (fst kb), snd kb)) ?nonempty"
    and unc: "d_uncaught ?run = []"
    unfolding c se by simp_all
  have F: "treeFiles localDir entries
      = map (\<lambda>(segs, bytes). (localDir @ CHR ''/'' # join_slash segs, bytes)) ?R"
    using wf by (intro treeFiles_relative [OF d]) (simp add: wellFormedTree_def)
  have path: "localFilePath s3Prefix localDir (s3Prefix @ CHR ''/'' # join_slash segs)
      = localDir @ CHR ''/'' # join_slash segs"
    if "(segs, bytes) \<in> set ?R" for segs bytes
  proof -
    from treeRelativeFiles_segments [OF wf that]
    have "cleanPath (join_slash segs)" unfolding cleanPath_def by blast
    with d show ?thesis by (rule localFilePath_clean)
  qed
  have "set (d_written ?run) = {(path, bytes) \<in> set (treeFiles localDir entries). bytes \<noteq> []}"
  proof
    show "set (d_written ?run) \<subseteq> {(path, bytes) \<in> set (treeFiles localDir entries). bytes \<noteq> []}"
    proof
      fix x assume "x \<in> set (d_written ?run)"
      then obtain kb where kb: "kb \<in> set ?b" and n: "snd kb \<noteq> []"
        and x: "x = (localFilePath s3Prefix localDir (fst kb), snd kb)"
        unfolding wr by auto
      from key [OF kb] obtain segs where s: "(segs, snd kb) \<in> set ?R"
        and k: "fst kb = s3Prefix @ CHR ''/'' # join_slash segs" by blast
      from path [OF s] k x have "x = (localDir @ CHR ''/'' # join_slash segs, snd kb)" by simp
      with s n show "x \<in> {(path, bytes) \<in> set (treeFiles localDir entries). bytes \<noteq> []}"
        unfolding F by force
    qed
  next
    show "{(path, bytes) \<in> set (treeFiles localDir entries). bytes \<noteq> []} \<subseteq> set (d_written ?run)"
    proof
      fix x assume "x \<in> {(path, bytes) \<in> set (treeFiles localDir entries). bytes \<noteq> []}"
      then obtain segs bytes where s: "(segs, bytes) \<in> set ?R" and n: "bytes \<noteq> []"
        and x: "x = (localDir @ CHR ''/'' # join_slash segs, bytes)"
        unfolding F by auto
      let ?kb = "(s3Prefix @ CHR ''/'' # join_slash segs, bytes)"
      from s have "?kb \<in> set ?b" unfolding b T by force
      with n have "?kb \<in> set ?nonempty" by simp
      then have "(localFilePath s3Prefix localDir (fst ?kb), snd ?kb) \<in> set (d_written ?run)"
        unfolding wr set_map by (rule imageI)
      with path [OF s] x show "x \<in> set (d_written ?run)" by simp
    qed
  qed
  with run rej unc show ?thesis by blast
qed

theorem C4_round_trip_reproduces_nonempty_files_witness:
  "wellFormedTree [File ''empty.txt'' [], File ''index.html'' ''<html>'', Directory ''assets'' [File ''app.js'' ''x'']]
   \<and> cleanPath ''output/abc123''
   \<and> map_option d_written
         (roundTrip [File ''empty.txt'' [], File ''index.html'' ''<html>'', Directory ''assets'' [File ''app.js'' ''x'']]
            ''abc123'' ''output/abc123'')
       = Some [(''output/abc123/assets/app.js'', ''x''), (''output/abc123/index.html'', ''<html>'')]
   \<and> treeFiles ''output/abc123''
         [File ''empty.txt'' [], File ''index.html'' ''<html>'', Directory ''assets'' [File ''app.js'' ''x'']]
       = [(''output/abc123/empty.txt'', []), (''output/abc123/index.html'', ''<html>''),
          (''output/abc123/assets/app.js'', ''x'')]"
proof -
  let ?tree = "[File ''empty.txt'' [], File ''index.html'' ''<html>'', Directory ''assets'' [File ''app.js'' ''x'']]"
  have w: "wellFormedTree ?tree" by code_simp
  have "plainName ''output''" and "plainName ''abc123''" by code_simp+
  then have c: "cleanPath ''output/abc123''"
    unfolding cleanPath_def by (intro exI [of _ "[''output'', ''abc123'']"]) simp
  have p: "''abc123'' \<noteq> []" by simp
  have r: "map_option d_written (roundTrip ?tree ''abc123'' ''output/abc123'')
       = Some [(''output/abc123/assets/app.js'', ''x''), (''output/abc123/index.html'', ''<html>'')]"
    by code_simp
  have t: "treeFiles ''output/abc123'' ?tree
       = [(''output/abc123/empty.txt'', []), (''output/abc123/index.html'', ''<html>''),
          (''output/abc123/assets/app.js'', ''x'')]"
    by code_simp
  from C4_round_trip_reproduces_nonempty_files [OF w p c]
  have "\<exists>run. roundTrip ?tree ''abc123'' ''output/abc123'' = Some run" by blast
  with w c r t show ?thesis by blast
qed

text \<open>
  Claim C4 as stated fails for an empty file. A tree that holds one empty file is uploaded
  as one object of size 0; the download leaves out every object of size 0, so the sync
  finishes without an error and the directory stays empty.
\<close>

theorem C4_empty_file_lost_in_round_trip:
  "treeFiles ''output/abc123'' [File ''empty.txt'' []] = [(''output/abc123/empty.txt'', [])]
   \<and> map_option d_written (roundTrip [File ''empty.txt'' []] ''abc123'' ''output/abc123'') = Some []
   \<and> map_option d_rejections (roundTrip [File ''empty.txt'' []] ''abc123'' ''output/abc123'') = Some []
   \<and> map_option d_uncaught (roundTrip [File ''empty.txt'' []] ''abc123'' ''output/abc123'') = Some []"
  by code_simp

end
